theory Spec2Isabelle
  imports
    Complex_Main
    "HOL-Library.Char_ord"
    "HOL-Library.List_Lexorder"
    "HOL-Library.Product_Lexorder"
begin

section \<open>Data model\<close>

text \<open>
  The notebook \<^verbatim>\<open>make_network.ipynb\<close> turns a table of posts into per-user vectors,
  removes users with duplicate vectors and writes an edge list.

  \<^item> A row of the DataFrame is reduced to the two columns the code reads,
    \<^verbatim>\<open>author_name\<close> and \<^verbatim>\<open>subreddit\<close>, both strings; a table is the list of its rows.
    Missing values are not modelled.
  \<^item> A float64 value is a \<^typ>\<open>real\<close>. The float64 operations of NumPy that the code calls
    are a parameter \<open>np\<close> of every function that computes with them (\<open>numerics\<close> below):
    what they return depends on rounding, and for \<^verbatim>\<open>np.dot\<close> on the BLAS routine behind
    it. Two instances are defined, \<open>exact\<close> (no rounding) and \<open>float64_numpy\<close> (every
    operation rounded to the nearest float64). Infinities, NaN and the bounds of the
    exponent are outside the model. A one-dimensional array is a list of reals and a
    two-dimensional array a list of rows.
  \<^item> A Python \<^verbatim>\<open>dict\<close> keeps its keys in insertion order and the code depends on that
    order, so a dict is an association list; its keys are distinct.
  \<^item> An exception is a value of \<open>error\<close>, returned as \<open>Inl\<close>. Modelled are the
    exceptions of the dict and array operations and those of \<^verbatim>\<open>open\<close> and \<^verbatim>\<open>write\<close>; the
    \<^verbatim>\<open>print\<close> calls, what they write and the exhaustion of memory are not.
  \<^item> The file system holds the contents of the files and decides which files it refuses
    to open and which lines it refuses to write.
\<close>

type_synonym post = "string \<times> string"
type_synonym vector = "real list"
type_synonym user_vectors = "(string \<times> vector) list"

datatype error =
    StopIteration | KeyError | IndexError | ValueError | AxisError
  | FileNotFoundError | IsADirectoryError | PermissionError | UnicodeEncodeError

section \<open>NumPy operations used by the notebook\<close>

text \<open>
  The operations with a float64 result:

  \<^item> \<open>linalg_norm\<close>, the norm that \<^verbatim>\<open>np.linalg.norm(x, axis=1, keepdims=True)\<close> computes for
    one row;
  \<^item> \<open>true_divide\<close>, the quotient \<^verbatim>\<open>a / b\<close> of two numbers, which the code takes of two
    NumPy integers and, element by element, of two arrays;
  \<^item> \<open>dot_entry\<close>, the entry in row \<open>i\<close> and column \<open>j\<close> of \<^verbatim>\<open>np.dot(m, m.T)\<close> for a
    two-dimensional array \<open>m\<close>. It is a function of the whole array and of the position:
    the BLAS routine behind \<^verbatim>\<open>np.dot\<close> need not round every entry in the same way.
\<close>

datatype numerics =
  Numerics (linalg_norm: "vector \<Rightarrow> real")
           (true_divide: "real \<Rightarrow> real \<Rightarrow> real")
           (dot_entry: "vector list \<Rightarrow> nat \<Rightarrow> nat \<Rightarrow> real")

text \<open>
  \<^verbatim>\<open>np.array(rows)\<close> of a list of equally long rows is the two-dimensional array of these
  rows. Rows of different lengths raise \<^verbatim>\<open>ValueError\<close> (from NumPy 1.24 on; before, the
  norm below raises on the array of objects). Of the empty list it is the empty
  one-dimensional array, which \<open>linalg_norm_axis1\<close> below rejects.
\<close>

definition np_array :: "vector list \<Rightarrow> error + vector list" where
  "np_array rows =
     (if list_all (\<lambda>v. length v = length (hd rows)) rows then Inr rows else Inl ValueError)"

text \<open>
  \<^verbatim>\<open>np.linalg.norm(x, axis=1, keepdims=True)\<close>: the Euclidean norm of every row. The array
  built from an empty list has one dimension only, and axis 1 is out of bounds for it.
\<close>

definition linalg_norm_axis1 :: "numerics \<Rightarrow> vector list \<Rightarrow> error + real list" where
  "linalg_norm_axis1 np x =
     (if x = [] then Inl AxisError else Inr (map (linalg_norm np) x))"

text \<open>\<^verbatim>\<open>norms[norms == 0] = 1.0\<close>\<close>

definition replace_zero :: "real list \<Rightarrow> real list" where
  "replace_zero norms = map (\<lambda>n. if n = 0 then 1 else n) norms"

text \<open>
  \<^verbatim>\<open>vecs / norms\<close>, an (n, d) array divided by an (n, 1) array: row by row. NumPy
  raises no exception on a divisor 0; the divisors here are the norms after the
  substitution, which are shown not to be 0.
\<close>

definition divide_rows :: "numerics \<Rightarrow> vector list \<Rightarrow> real list \<Rightarrow> vector list" where
  "divide_rows np vecs norms = map2 (\<lambda>v n. map (\<lambda>a. true_divide np a n) v) vecs norms"

text \<open>\<^verbatim>\<open>np.dot(m, m.T)\<close> of an array of \<open>n\<close> rows: the \<open>n \<times> n\<close> array of the entries.\<close>

definition dot_T :: "numerics \<Rightarrow> vector list \<Rightarrow> real list list" where
  "dot_T np m = map (\<lambda>i. map (\<lambda>j. dot_entry np m i j) [0 ..< length m]) [0 ..< length m]"

subsection \<open>Exact arithmetic\<close>

text \<open>
  The operations without rounding: the Euclidean norm, the quotient (HOL defines
  \<open>a / 0 = 0\<close>) and the dot product of two rows, which have one length.
\<close>

definition l2norm :: "vector \<Rightarrow> real" where
  "l2norm v = sqrt (sum_list (map (\<lambda>a. a * a) v))"

definition dot :: "vector \<Rightarrow> vector \<Rightarrow> real" where
  "dot a b = sum_list (map2 (*) a b)"

definition exact :: numerics where
  "exact = Numerics l2norm (/) (\<lambda>m i j. dot (m ! i) (m ! j))"

subsection \<open>Float64 arithmetic\<close>

text \<open>
  Rounding to the nearest integer, ties to the even one, and rounding of a real to the
  nearest number with a significand of 53 bits, ties to the even significand: the float64
  result of an operation whose exact result is \<open>x\<close>, as long as \<open>x\<close> is within the range
  of the normal float64 numbers.
\<close>

definition round_even :: "real \<Rightarrow> int" where
  "round_even x =
     (let f = \<lfloor>x\<rfloor>; d = x - of_int f
      in if d < 1 / 2 then f else if 1 / 2 < d then f + 1 else if even f then f else f + 1)"

definition float64 :: "real \<Rightarrow> real" where
  "float64 x =
     (if x = 0 then 0
      else (let e = \<lfloor>log 2 \<bar>x\<bar>\<rfloor> - 52
            in of_int (round_even (x / 2 powr of_int e)) * 2 powr of_int e))"

text \<open>
  A sum accumulated from left to right, every addition rounded. NumPy adds the squares of
  a row of fewer than eight elements in this order.
\<close>

fun float64_sum :: "real list \<Rightarrow> real" where
  "float64_sum [] = 0"
| "float64_sum (a # as) = foldl (\<lambda>acc b. float64 (acc + b)) a as"

definition float64_norm :: "vector \<Rightarrow> real" where
  "float64_norm v = float64 (sqrt (float64_sum (map (\<lambda>a. float64 (a * a)) v)))"

definition float64_divide :: "real \<Rightarrow> real \<Rightarrow> real" where
  "float64_divide a b = float64 (a / b)"

text \<open>
  Two ways to compute a dot product in float64: every product rounded and the products
  added from left to right; and with fused multiply-add, where only the first product is
  rounded and every further step rounds \<open>acc + p * q\<close> once.
\<close>

definition float64_dot :: "vector \<Rightarrow> vector \<Rightarrow> real" where
  "float64_dot a b = float64_sum (map2 (\<lambda>p q. float64 (p * q)) a b)"

definition float64_dot_fma :: "vector \<Rightarrow> vector \<Rightarrow> real" where
  "float64_dot_fma a b =
     (case zip a b of
        [] \<Rightarrow> 0
      | (p, q) # rest \<Rightarrow> foldl (\<lambda>acc (p, q). float64 (acc + p * q)) (float64 (p * q)) rest)"

text \<open>
  \<open>float64_numpy\<close> computes every entry of \<^verbatim>\<open>np.dot(m, m.T)\<close> the first way.
  \<open>float64_numpy_simd\<close> computes the columns two at a time with fused multiply-add, and a
  last column that has no partner the first way: a routine that treats the columns that do
  not fill a block in a loop of their own.
\<close>

definition float64_numpy :: numerics where
  "float64_numpy =
     Numerics float64_norm float64_divide (\<lambda>m i j. float64_dot (m ! i) (m ! j))"

definition float64_numpy_simd :: numerics where
  "float64_numpy_simd =
     Numerics float64_norm float64_divide
       (\<lambda>m i j. if j < 2 * (length m div 2) then float64_dot_fma (m ! i) (m ! j)
                else float64_dot (m ! i) (m ! j))"

section \<open>The file system\<close>

text \<open>
  The contents of the files by name; the exception with which \<^verbatim>\<open>open(name, 'w')\<close> fails, for
  the names that cannot be opened for writing (a directory, a name in a directory that does
  not exist, a file without write permission); and the exception with which writing a line
  to a file fails (a character that the encoding of the file does not have).
\<close>

datatype filesystem =
  Filesystem (contents: "string \<rightharpoonup> string")
             (open_fails: "string \<rightharpoonup> error")
             (write_fails: "string \<Rightarrow> string \<rightharpoonup> error")

definition with_file :: "filesystem \<Rightarrow> string \<Rightarrow> string \<Rightarrow> filesystem" where
  "with_file fs name text = Filesystem ((contents fs)(name \<mapsto> text)) (open_fails fs) (write_fails fs)"

text \<open>
  \<^verbatim>\<open>open(name, 'w')\<close>: the empty name is the name of no file and raises
  \<^verbatim>\<open>FileNotFoundError\<close>; a file that is opened is created or emptied.
\<close>

definition open_w :: "filesystem \<Rightarrow> string \<Rightarrow> error + filesystem" where
  "open_w fs name =
     (if name = [] then Inl FileNotFoundError
      else case open_fails fs name of
             Some e \<Rightarrow> Inl e
           | None \<Rightarrow> Inr (with_file fs name []))"

text \<open>\<^verbatim>\<open>f.write(line)\<close> on the file opened under \<open>name\<close>: the line is appended.\<close>

definition file_write :: "filesystem \<Rightarrow> string \<Rightarrow> string \<Rightarrow> error + filesystem" where
  "file_write fs name line =
     (case write_fails fs name line of
        Some e \<Rightarrow> Inl e
      | None \<Rightarrow>
          Inr (with_file fs name
                 ((case contents fs name of None \<Rightarrow> [] | Some old \<Rightarrow> old) @ line)))"

section \<open>deduplicate\<close>

text \<open>
  The inner loop of a round, \<^verbatim>\<open>for j in range(i+1, len(users))\<close>, on the set
  \<^verbatim>\<open>todrop\<close>.
\<close>

definition scan_row :: "string list \<Rightarrow> real list list \<Rightarrow> real \<Rightarrow> nat \<Rightarrow> string set \<Rightarrow> string set" where
  "scan_row users sim_matrix threshold i todrop =
     fold (\<lambda>j td. if users ! j \<in> td then td
                   else if sim_matrix ! i ! j \<ge> threshold then insert (users ! j) td
                   else td)
          [i + 1 ..< length users] todrop"

text \<open>The outer loop, \<^verbatim>\<open>for i in range(len(users))\<close>, starting from the empty set.\<close>

definition scan_pairs :: "string list \<Rightarrow> real list list \<Rightarrow> real \<Rightarrow> string set" where
  "scan_pairs users sim_matrix threshold =
     fold (\<lambda>i td. if users ! i \<in> td then td else scan_row users sim_matrix threshold i td)
          [0 ..< length users] {}"

text \<open>
  The body of the \<^verbatim>\<open>while\<close> loop, from \<^verbatim>\<open>curr\<close> to the next \<^verbatim>\<open>curr\<close> (written
  \<open>cur\<close> here, \<open>curr\<close> being a constant of the library). The keys of a dict are
  distinct, so \<^verbatim>\<open>[curr[user] for user in users]\<close> is the list of its values.
\<close>

definition dedup_round :: "numerics \<Rightarrow> user_vectors \<Rightarrow> real \<Rightarrow> error + user_vectors" where
  "dedup_round np cur threshold =
     (let users = map fst cur in
      case np_array (map snd cur) of
        Inl e \<Rightarrow> Inl e
      | Inr vecs \<Rightarrow>
          (case linalg_norm_axis1 np vecs of
             Inl e \<Rightarrow> Inl e
           | Inr norms0 \<Rightarrow>
               (let norms = replace_zero norms0;
                    normalized_vecs = divide_rows np vecs norms;
                    sim_matrix = dot_T np normalized_vecs;
                    todrop = scan_pairs users sim_matrix threshold
                in Inr (filter (\<lambda>(user, vector). user \<notin> todrop) cur))))"

text \<open>
  The \<^verbatim>\<open>while\<close> loop on its variables \<^verbatim>\<open>curr\<close>, \<^verbatim>\<open>prev\<close> and \<^verbatim>\<open>iteration\<close>. It returns
  the last \<^verbatim>\<open>curr\<close> together with the number of rounds run; an exception raised in a round
  leaves the loop.
\<close>

function dedup_loop ::
  "numerics \<Rightarrow> user_vectors \<Rightarrow> int \<Rightarrow> int \<Rightarrow> real \<Rightarrow> int \<Rightarrow> error + (user_vectors \<times> int)" where
  "dedup_loop np cur prev iteration threshold runs =
     (if int (length cur) \<noteq> prev \<and> iteration < runs then
        (case dedup_round np cur threshold of
           Inl e \<Rightarrow> Inl e
         | Inr cur' \<Rightarrow> dedup_loop np cur' (int (length cur)) (iteration + 1) threshold runs)
      else Inr (cur, iteration))"
  by pat_completeness auto
termination
  by (relation "measure (\<lambda>(np, cur, prev, iteration, threshold, runs). nat (runs - iteration))")
     auto

declare dedup_loop.simps [simp del]

definition deduplicate :: "numerics \<Rightarrow> user_vectors \<Rightarrow> real \<Rightarrow> int \<Rightarrow> error + user_vectors" where
  "deduplicate np vectors threshold runs =
     (case dedup_loop np vectors (- 1) 0 threshold runs of
        Inl e \<Rightarrow> Inl e
      | Inr (cur, iteration) \<Rightarrow> Inr cur)"

text \<open>The defaults of the signature \<^verbatim>\<open>deduplicate(vectors, threshold = 1, runs=5)\<close>.\<close>

definition deduplicate_default_threshold :: real where
  "deduplicate_default_threshold = 1"

definition deduplicate_default_runs :: int where
  "deduplicate_default_runs = 5"

section \<open>generate_similarity_network_vectorized\<close>

text \<open>
  \<^verbatim>\<open>np.triu_indices_from(arr, k)\<close> of a square array: the row indices and the column
  indices of the entries on and above the \<open>k\<close>-th diagonal, row by row.
\<close>

definition triu_indices_from :: "real list list \<Rightarrow> nat \<Rightarrow> nat list \<times> nat list" where
  "triu_indices_from arr k =
     (let n = length arr
      in (concat (map (\<lambda>i. map (\<lambda>j. i) [i + k ..< n]) [0 ..< n]),
          concat (map (\<lambda>i. [i + k ..< n]) [0 ..< n])))"

text \<open>
  The loop \<^verbatim>\<open>for u1, u2 in edges: f.write(f"{u1} {u2}\n")\<close> on the file opened under
  \<open>name\<close>. It returns the file system it leaves and the exception that ended it, if any:
  the lines written before stay in the file, which the \<^verbatim>\<open>with\<close> statement closes.
\<close>

fun write_edges ::
  "filesystem \<Rightarrow> string \<Rightarrow> (string \<times> string) list \<Rightarrow> filesystem \<times> error option" where
  "write_edges fs name [] = (fs, None)"
| "write_edges fs name ((u1, u2) # edges) =
     (case file_write fs name (u1 @ '' '' @ u2 @ [CHR 0x0A]) of
        Inl e \<Rightarrow> (fs, Some e)
      | Inr fs' \<Rightarrow> write_edges fs' name edges)"

text \<open>
  The function takes the file system and returns it as the call leaves it, together with
  the outcome of the call: the exception raised, or the value returned, \<^verbatim>\<open>output_file\<close>.
  Nothing is written before \<^verbatim>\<open>open\<close>, so an exception raised up to there leaves the file
  system as it was.
\<close>

definition generate_similarity_network_vectorized ::
  "numerics \<Rightarrow> filesystem \<Rightarrow> user_vectors \<Rightarrow> real \<Rightarrow> string \<Rightarrow> filesystem \<times> (error + string)" where
  "generate_similarity_network_vectorized np fs user_vectors_2 threshold output_file =
     (case deduplicate np user_vectors_2 1 deduplicate_default_runs of
        Inl e \<Rightarrow> (fs, Inl e)
      | Inr vectors0 \<Rightarrow>
          (let users = map fst vectors0 in
           case np_array (map snd vectors0) of
             Inl e \<Rightarrow> (fs, Inl e)
           | Inr vectors \<Rightarrow>
               (case linalg_norm_axis1 np vectors of
                  Inl e \<Rightarrow> (fs, Inl e)
                | Inr norms0 \<Rightarrow>
                    (let norms = replace_zero norms0;
                         normalized_vectors = divide_rows np vectors norms;
                         similarity_matrix = dot_T np normalized_vectors;
                         (rows, cols) = triu_indices_from similarity_matrix 1;
                         edges = map (\<lambda>(i, j). (users ! i, users ! j))
                                   (filter (\<lambda>(i, j). similarity_matrix ! i ! j \<ge> threshold)
                                      (zip rows cols))
                     in case open_w fs output_file of
                          Inl e \<Rightarrow> (fs, Inl e)
                        | Inr fs1 \<Rightarrow>
                            (case write_edges fs1 output_file edges of
                               (fs2, Some e) \<Rightarrow> (fs2, Inl e)
                             | (fs2, None) \<Rightarrow> (fs2, Inr output_file))))))"

text \<open>
  The defaults of the signature
  \<^verbatim>\<open>generate_similarity_network_vectorized(user_vectors_2, threshold=0.1, output_file='network_similarity_vec.csv')\<close>,
  the call that leaves both to their defaults, and the call the notebook makes,
  \<^verbatim>\<open>generate_similarity_network_vectorized(user_vectors, threshold=0.95)\<close>.
\<close>

definition default_threshold :: real where
  "default_threshold = 1 / 10"

definition default_output_file :: string where
  "default_output_file = ''network_similarity_vec.csv''"

definition generate_similarity_network_vectorized_defaults ::
  "numerics \<Rightarrow> filesystem \<Rightarrow> user_vectors \<Rightarrow> filesystem \<times> (error + string)" where
  "generate_similarity_network_vectorized_defaults np fs user_vectors_2 =
     generate_similarity_network_vectorized np fs user_vectors_2 default_threshold
       default_output_file"

definition edge_list_file_vec ::
  "numerics \<Rightarrow> filesystem \<Rightarrow> user_vectors \<Rightarrow> filesystem \<times> (error + string)" where
  "edge_list_file_vec np fs user_vectors =
     generate_similarity_network_vectorized np fs user_vectors (95 / 100) default_output_file"

section \<open>create_user_vectors\<close>

text \<open>
  \<^verbatim>\<open>df.groupby(['author_name', 'subreddit']).size().reset_index(name='count')\<close>: one row
  for every pair that occurs, with the number of its occurrences, the pairs in sorted order.
\<close>

definition groupby_size :: "post list \<Rightarrow> (string \<times> string \<times> nat) list" where
  "groupby_size df =
     map (\<lambda>(author_name, subreddit). (author_name, subreddit, count_list df (author_name, subreddit)))
       (sort (remdups df))"

text \<open>
  \<^verbatim>\<open>user_subreddit_counts.groupby('author_name')['count'].sum()\<close>: a series indexed by
  the sorted user names.
\<close>

definition groupby_sum :: "(string \<times> string \<times> nat) list \<Rightarrow> (string \<times> nat) list" where
  "groupby_sum counts =
     map (\<lambda>author_name.
            (author_name,
             sum_list (map (\<lambda>(u, s, c). c) (filter (\<lambda>(u, s, c). u = author_name) counts))))
       (sort (remdups (map fst counts)))"

text \<open>The local \<^verbatim>\<open>lurker_threshold = 3\<close>.\<close>

definition lurker_threshold :: nat where
  "lurker_threshold = 3"

text \<open>
  The loop \<^verbatim>\<open>for idx, row in user_subreddit_counts.iterrows()\<close> on the dict
  \<^verbatim>\<open>user_vectors\<close>: a new user gets a vector of zeros at the end of the dict, then the
  coordinate of the row's subreddit is set. A key missing from \<^verbatim>\<open>subreddit_to_idx\<close> or from
  \<^verbatim>\<open>user_total_posts\<close> raises \<^verbatim>\<open>KeyError\<close>, an index beyond the vector \<^verbatim>\<open>IndexError\<close>;
  every vector of the dict is made by this loop, with \<open>n\<close> coordinates. The division is
  that of two NumPy integers, with a float64 result.
\<close>

fun fill_vectors ::
  "numerics \<Rightarrow> nat \<Rightarrow> (string \<rightharpoonup> nat) \<Rightarrow> (string \<rightharpoonup> nat) \<Rightarrow> (string \<times> string \<times> nat) list \<Rightarrow>
     user_vectors \<Rightarrow> error + user_vectors" where
  "fill_vectors np n subreddit_to_idx user_total_posts [] user_vectors = Inr user_vectors"
| "fill_vectors np n subreddit_to_idx user_total_posts ((user, subreddit, count) # rows)
     user_vectors =
     (let user_vectors1 =
            (if user \<notin> fst ` set user_vectors then user_vectors @ [(user, replicate n 0)]
             else user_vectors)
      in case subreddit_to_idx subreddit of
           None \<Rightarrow> Inl KeyError
         | Some sr_idx \<Rightarrow>
             (case user_total_posts user of
                None \<Rightarrow> Inl KeyError
              | Some tot \<Rightarrow>
                  if sr_idx < n then
                    fill_vectors np n subreddit_to_idx user_total_posts rows
                      (map (\<lambda>(u, v). if u = user
                                     then (u, v[sr_idx := true_divide np (real count) (real tot)])
                                     else (u, v))
                         user_vectors1)
                  else Inl IndexError))"

text \<open>
  The last \<^verbatim>\<open>print\<close> of the function evaluates \<^verbatim>\<open>next(iter(user_vectors.values()))\<close>,
  which raises \<^verbatim>\<open>StopIteration\<close> on an empty dict; the handler prints the exception and
  raises it again.
\<close>

definition create_user_vectors ::
  "numerics \<Rightarrow> post list \<Rightarrow> error + (user_vectors \<times> string list)" where
  "create_user_vectors np df =
     (let user_subreddit_counts0 = groupby_size df;
          user_total_posts0 = groupby_sum user_subreddit_counts0;
          user_total_posts = filter (\<lambda>(user, tot). tot \<ge> lurker_threshold) user_total_posts0;
          user_subreddit_counts =
            filter (\<lambda>(user, subreddit, count). user \<in> fst ` set user_total_posts)
              user_subreddit_counts0;
          all_subreddits = sort (remdups (map snd df));
          subreddit_to_idx = fold (\<lambda>(i, sr) m. m(sr \<mapsto> i)) (enumerate 0 all_subreddits) Map.empty
      in case fill_vectors np (length all_subreddits) subreddit_to_idx (map_of user_total_posts)
                user_subreddit_counts [] of
           Inl e \<Rightarrow> Inl e
         | Inr user_vectors \<Rightarrow>
             (case user_vectors of
                [] \<Rightarrow> Inl StopIteration
              | _ \<Rightarrow> Inr (user_vectors, all_subreddits)))"

text \<open>
  The quantities the specification names, read off the post records: the number of posts of
  a user in a subreddit, and the number of posts of a user.
\<close>

definition ActivityCount :: "post list \<Rightarrow> string \<Rightarrow> string \<Rightarrow> nat" where
  "ActivityCount df u s = count_list df (u, s)"

definition UserTotal :: "post list \<Rightarrow> string \<Rightarrow> nat" where
  "UserTotal df u = length (filter (\<lambda>p. fst p = u) df)"

section \<open>Notions used in the statements\<close>

text \<open>
  The rows divided by their norms, a norm 0 replaced by 1, and the similarity matrix of
  the rows: what \<open>dedup_round\<close> and \<open>generate_similarity_network_vectorized\<close> compute from
  the array of the vectors.
\<close>

definition normalize_rows :: "numerics \<Rightarrow> vector list \<Rightarrow> vector list" where
  "normalize_rows np vecs = divide_rows np vecs (replace_zero (map (linalg_norm np) vecs))"

definition similarities :: "numerics \<Rightarrow> vector list \<Rightarrow> real list list" where
  "similarities np vecs = dot_T np (normalize_rows np vecs)"

text \<open>
  The cosine similarity of two vectors: the dot product of the two, each divided by its
  norm, or by 1 where the norm is 0. It is the entry of the similarity matrix in exact
  arithmetic.
\<close>

definition unit_vector :: "vector \<Rightarrow> vector" where
  "unit_vector v = map (\<lambda>a. a / (if l2norm v = 0 then 1 else l2norm v)) v"

definition cosine :: "vector \<Rightarrow> vector \<Rightarrow> real" where
  "cosine a b = dot (unit_vector a) (unit_vector b)"

definition cosine_matrix :: "vector list \<Rightarrow> real list list" where
  "cosine_matrix vecs = map (\<lambda>a. map (\<lambda>b. cosine a b) vecs) vecs"

text \<open>
  An entry of \<^verbatim>\<open>np.dot(m, m.T)\<close> is a function of the two rows alone, wherever they are in
  the array.
\<close>

definition position_independent :: "numerics \<Rightarrow> bool" where
  "position_independent np \<longleftrightarrow>
     (\<exists>f. \<forall>m i j. i < length m \<longrightarrow> j < length m \<longrightarrow> dot_entry np m i j = f (m ! i) (m ! j))"

text \<open>The rows have one length, as \<open>np_array\<close> requires.\<close>

definition uniform :: "vector list \<Rightarrow> bool" where
  "uniform rows = list_all (\<lambda>v. length v = length (hd rows)) rows"

text \<open>The set \<^verbatim>\<open>todrop\<close> after the first \<open>m\<close> passes of the outer loop of a round.\<close>

definition marked_upto :: "string list \<Rightarrow> real list list \<Rightarrow> real \<Rightarrow> nat \<Rightarrow> string set" where
  "marked_upto users sim t m =
     fold (\<lambda>i td. if users ! i \<in> td then td else scan_row users sim t i td) [0 ..< m] {}"

text \<open>
  The index pairs above the diagonal of an \<open>n \<times> n\<close> matrix, row by row; the pairs among
  them whose users are similar enough; and the lines written for a list of pairs.
\<close>

definition upper_triangle :: "nat \<Rightarrow> (nat \<times> nat) list" where
  "upper_triangle n = concat (map (\<lambda>i. map (\<lambda>j. (i, j)) [i + 1 ..< n]) [0 ..< n])"

definition edge_indices :: "numerics \<Rightarrow> user_vectors \<Rightarrow> real \<Rightarrow> (nat \<times> nat) list" where
  "edge_indices np vectors threshold =
     filter (\<lambda>(i, j). similarities np (map snd vectors) ! i ! j \<ge> threshold)
       (upper_triangle (length vectors))"

definition edge_lines :: "user_vectors \<Rightarrow> (nat \<times> nat) list \<Rightarrow> string list" where
  "edge_lines vectors pairs =
     map (\<lambda>(i, j). fst (vectors ! i) @ '' '' @ fst (vectors ! j) @ [CHR 0x0A]) pairs"

text \<open>
  The file system lets the file be opened for writing and every one of the lines be
  written; and a file system without files that refuses nothing.
\<close>

definition accepts :: "filesystem \<Rightarrow> string \<Rightarrow> string list \<Rightarrow> bool" where
  "accepts fs name lines \<longleftrightarrow>
     name \<noteq> [] \<and> open_fails fs name = None \<and> list_all (\<lambda>l. write_fails fs name l = None) lines"

definition no_files :: filesystem where
  "no_files = Filesystem Map.empty Map.empty (\<lambda>name. Map.empty)"

text \<open>
  One pass of the loop of \<open>fill_vectors\<close> on the dict; the coordinate \<open>k\<close> of the vector of
  a user in a dict, 0 when the user has no vector; and the dicts with distinct keys and
  vectors of length \<open>n\<close>.
\<close>

definition step_vectors :: "nat \<Rightarrow> user_vectors \<Rightarrow> string \<Rightarrow> nat \<Rightarrow> real \<Rightarrow> user_vectors" where
  "step_vectors n uv user i x =
     map (\<lambda>(u, v). if u = user then (u, v[i := x]) else (u, v))
       (if user \<notin> fst ` set uv then uv @ [(user, replicate n 0)] else uv)"

definition coord :: "user_vectors \<Rightarrow> string \<Rightarrow> nat \<Rightarrow> real" where
  "coord uv u k = (case map_of uv u of Some v \<Rightarrow> v ! k | None \<Rightarrow> 0)"

definition wf_vectors :: "nat \<Rightarrow> user_vectors \<Rightarrow> bool" where
  "wf_vectors n uv \<longleftrightarrow> distinct (map fst uv) \<and> list_all (\<lambda>(u, v). length v = n) uv"

text \<open>The dict \<^verbatim>\<open>subreddit_to_idx\<close> that \<open>create_user_vectors\<close> builds.\<close>

definition index_map :: "string list \<Rightarrow> (string \<rightharpoonup> nat)" where
  "index_map subs = fold (\<lambda>(i, sr) m. m(sr \<mapsto> i)) (enumerate 0 subs) Map.empty"

text \<open>
  A table of posts to run the functions on: user \<^verbatim>\<open>a\<close> posts three times in \<^verbatim>\<open>x\<close>, user
  \<^verbatim>\<open>b\<close> three times in \<^verbatim>\<open>x\<close> and four times in \<^verbatim>\<open>y\<close>, user \<^verbatim>\<open>c\<close> once in \<^verbatim>\<open>z\<close>.
\<close>

definition example_posts :: "post list" where
  "example_posts =
     [(''b'', ''y''), (''a'', ''x''), (''b'', ''x''), (''a'', ''x''), (''b'', ''y''),
      (''c'', ''z''), (''b'', ''x''), (''a'', ''x''), (''b'', ''y''), (''b'', ''x''),
      (''b'', ''y'')]"

text \<open>
  A second table: the users \<^verbatim>\<open>a\<close> and \<^verbatim>\<open>b\<close> both post four times in \<^verbatim>\<open>x\<close> and three times
  in \<^verbatim>\<open>y\<close>.
\<close>

definition twin_posts :: "post list" where
  "twin_posts =
     [(''a'', ''x''), (''a'', ''y''), (''b'', ''x''), (''b'', ''y''), (''a'', ''x''),
      (''a'', ''y''), (''b'', ''x''), (''b'', ''y''), (''a'', ''x''), (''a'', ''y''),
      (''b'', ''x''), (''b'', ''y''), (''a'', ''x''), (''b'', ''x'')]"

section \<open>Deduplication: one round\<close>

lemma scan_row_fold:
  "fold (\<lambda>j td. if users ! j \<in> td then td
                 else if sim ! i ! j \<ge> (t::real) then insert (users ! j) td else td) [a ..< b] D
   = D \<union> {users ! j | j. a \<le> j \<and> j < b \<and> sim ! i ! j \<ge> t}"
proof (induction b)
  case 0
  show ?case by simp
next
  case (Suc b)
  show ?case
  proof (cases "a \<le> b")
    case False
    then show ?thesis by auto
  next
    case True
    let ?S = "\<lambda>b. {users ! j | j. a \<le> j \<and> j < b \<and> sim ! i ! j \<ge> t}"
    have split: "?S (Suc b) = ?S b \<union> (if sim ! i ! b \<ge> t then {users ! b} else {})"
      using True by (auto simp: less_Suc_eq)
    define f where "f = (\<lambda>j td. if users ! j \<in> td then td
                 else if sim ! i ! j \<ge> t then insert (users ! j) td else td)"
    have "[a ..< Suc b] = [a ..< b] @ [b]" using True by simp
    then have "fold f [a ..< Suc b] D = f b (fold f [a ..< b] D)" by simp
    also have "fold f [a ..< b] D = D \<union> ?S b" using Suc unfolding f_def .
    also have "f b (D \<union> ?S b) = D \<union> ?S (Suc b)"
      unfolding split f_def by (simp add: insert_absorb)
    finally show ?thesis unfolding f_def .
  qed
qed

lemma scan_row_eq:
  "scan_row users sim t i D = D \<union> {users ! j | j. i < j \<and> j < length users \<and> sim ! i ! j \<ge> t}"
  unfolding scan_row_def scan_row_fold by (auto simp: Suc_le_eq)

lemma marked_upto_Suc:
  "marked_upto users sim t (Suc m) =
     (let td = marked_upto users sim t m
      in if users ! m \<in> td then td else scan_row users sim t m td)"
  by (simp add: marked_upto_def)

lemma marked_upto_inv:
  assumes d: "distinct users" and m: "m \<le> length users"
  shows "\<forall>j < length users. users ! j \<in> marked_upto users sim t m \<longleftrightarrow>
           (\<exists>i < m. i < j \<and> users ! i \<notin> marked_upto users sim t m \<and> sim ! i ! j \<ge> t)"
  using m
proof (induction m)
  case 0
  show ?case by (simp add: marked_upto_def)
next
  case (Suc m)
  let ?D = "marked_upto users sim t m"
  have ml: "m < length users" using Suc.prems by simp
  have IH: "\<forall>j < length users. users ! j \<in> ?D \<longleftrightarrow>
           (\<exists>i < m. i < j \<and> users ! i \<notin> ?D \<and> sim ! i ! j \<ge> t)"
    using Suc by simp
  have nth_eq: "\<And>a b. a < length users \<Longrightarrow> b < length users \<Longrightarrow> users ! a = users ! b \<longleftrightarrow> a = b"
    using d by (simp add: nth_eq_iff_index_eq)
  show ?case
  proof (cases "users ! m \<in> ?D")
    case True
    then have eq: "marked_upto users sim t (Suc m) = ?D" by (simp add: marked_upto_Suc)
    show ?thesis unfolding eq using IH True by (auto simp: less_Suc_eq)
  next
    case False
    then have eq: "marked_upto users sim t (Suc m) =
        ?D \<union> {users ! j | j. m < j \<and> j < length users \<and> sim ! m ! j \<ge> t}"
      by (simp add: marked_upto_Suc scan_row_eq)
    have mem: "\<And>j. j < length users \<Longrightarrow>
        users ! j \<in> marked_upto users sim t (Suc m) \<longleftrightarrow> users ! j \<in> ?D \<or> (m < j \<and> sim ! m ! j \<ge> t)"
      unfolding eq using nth_eq by auto
    show ?thesis
    proof (intro allI impI)
      fix j assume jl: "j < length users"
      have "(\<exists>i < Suc m. i < j \<and> users ! i \<notin> marked_upto users sim t (Suc m) \<and> sim ! i ! j \<ge> t)
            \<longleftrightarrow> (\<exists>i < m. i < j \<and> users ! i \<notin> ?D \<and> sim ! i ! j \<ge> t) \<or> (m < j \<and> sim ! m ! j \<ge> t)"
        (is "?L \<longleftrightarrow> ?R1 \<or> ?R2")
      proof
        assume ?L
        then obtain i where i: "i < Suc m" "i < j" "users ! i \<notin> marked_upto users sim t (Suc m)" "sim ! i ! j \<ge> t"
          by blast
        have il: "i < length users" using i(2) jl by simp
        from i(3) mem [OF il] have nD: "users ! i \<notin> ?D" by simp
        show "?R1 \<or> ?R2"
        proof (cases "i = m")
          case True
          with i show ?thesis by simp
        next
          case False
          with i(1) have "i < m" by simp
          with i nD show ?thesis by blast
        qed
      next
        assume "?R1 \<or> ?R2"
        then show ?L
        proof
          assume ?R1
          then obtain i where i: "i < m" "i < j" "users ! i \<notin> ?D" "sim ! i ! j \<ge> t" by blast
          have il: "i < length users" using i(2) jl by simp
          have "users ! i \<notin> marked_upto users sim t (Suc m)"
            using mem [OF il] i(1,3) by simp
          with i show ?L by (intro exI [of _ i]) simp
        next
          assume r2: ?R2
          have "users ! m \<notin> marked_upto users sim t (Suc m)"
            using mem [OF ml] False by simp
          with r2 show ?L by (intro exI [of _ m]) simp
        qed
      qed
      then show "users ! j \<in> marked_upto users sim t (Suc m) \<longleftrightarrow>
           (\<exists>i < Suc m. i < j \<and> users ! i \<notin> marked_upto users sim t (Suc m) \<and> sim ! i ! j \<ge> t)"
        using mem [OF jl] IH jl by simp
    qed
  qed
qed

lemma scan_pairs_iff:
  assumes "distinct users" "j < length users"
  shows "users ! j \<in> scan_pairs users sim t \<longleftrightarrow>
           (\<exists>i < j. users ! i \<notin> scan_pairs users sim t \<and> sim ! i ! j \<ge> t)"
proof -
  have eq: "scan_pairs users sim t = marked_upto users sim t (length users)"
    by (simp add: scan_pairs_def marked_upto_def)
  from marked_upto_inv [OF assms(1) le_refl, of sim t] assms(2)
  have "users ! j \<in> marked_upto users sim t (length users) \<longleftrightarrow>
     (\<exists>i < length users. i < j \<and> users ! i \<notin> marked_upto users sim t (length users) \<and> sim ! i ! j \<ge> t)"
    by blast
  also have "\<dots> \<longleftrightarrow> (\<exists>i < j. users ! i \<notin> marked_upto users sim t (length users) \<and> sim ! i ! j \<ge> t)"
    using assms(2) by (meson less_trans)
  finally show ?thesis unfolding eq .
qed

lemma normalize_rows_eq:
  "normalize_rows np vecs =
     map (\<lambda>v. map (\<lambda>a. true_divide np a (if linalg_norm np v = 0 then 1 else linalg_norm np v)) v)
       vecs"
  by (induction vecs) (simp_all add: normalize_rows_def divide_rows_def replace_zero_def)

lemma length_normalize_rows [simp]: "length (normalize_rows np vecs) = length vecs"
  by (simp add: normalize_rows_eq)

lemma length_similarities [simp]: "length (similarities np vecs) = length vecs"
  by (simp add: similarities_def dot_T_def)

lemma similarities_nth:
  "i < length vecs \<Longrightarrow> j < length vecs \<Longrightarrow>
     similarities np vecs ! i ! j = dot_entry np (normalize_rows np vecs) i j"
  by (simp add: similarities_def dot_T_def)

lemma exact_simps [simp]:
  "linalg_norm exact = l2norm" "true_divide exact = (/)"
  "dot_entry exact = (\<lambda>m i j. dot (m ! i) (m ! j))"
  by (simp_all add: exact_def)

lemma normalize_rows_exact: "normalize_rows exact vecs = map unit_vector vecs"
  by (simp add: normalize_rows_eq unit_vector_def)

lemma map_upt_nth: "map (\<lambda>i. g (xs ! i)) [0 ..< length xs] = map g xs"
  by (rule nth_equalityI) simp_all

lemma similarities_exact: "similarities exact vecs = cosine_matrix vecs"
proof -
  let ?u = "map unit_vector vecs"
  have "dot_T exact ?u = map (\<lambda>i. map (\<lambda>b. dot (?u ! i) b) ?u) [0 ..< length ?u]"
    unfolding dot_T_def exact_simps by (simp only: map_upt_nth)
  also have "\<dots> = map (\<lambda>a. map (\<lambda>b. dot a b) ?u) ?u"
    by (rule map_upt_nth)
  finally show ?thesis
    by (simp add: similarities_def normalize_rows_exact cosine_matrix_def cosine_def comp_def)
qed

lemma cosine_matrix_nth:
  "i < length vecs \<Longrightarrow> j < length vecs \<Longrightarrow> cosine_matrix vecs ! i ! j = cosine (vecs ! i) (vecs ! j)"
  by (simp add: cosine_matrix_def)

lemma similarities_exact_nth:
  "i < length vecs \<Longrightarrow> j < length vecs \<Longrightarrow>
     similarities exact vecs ! i ! j = cosine (vecs ! i) (vecs ! j)"
  by (simp add: similarities_exact cosine_matrix_nth)

lemma dedup_round_eq:
  "dedup_round np cur t =
     (if \<not> uniform (map snd cur) then Inl ValueError
      else if cur = [] then Inl AxisError
      else Inr (filter (\<lambda>(user, vector).
                  user \<notin> scan_pairs (map fst cur) (similarities np (map snd cur)) t) cur))"
  by (simp add: dedup_round_def np_array_def linalg_norm_axis1_def uniform_def
      similarities_def normalize_rows_def del: map_map)

lemma dedup_round_InrD:
  assumes "dedup_round np cur t = Inr out"
  shows "uniform (map snd cur)" "cur \<noteq> []"
    "out = filter (\<lambda>(user, vector).
                  user \<notin> scan_pairs (map fst cur) (similarities np (map snd cur)) t) cur"
  using assms unfolding dedup_round_eq by (auto split: if_splits)

lemma dedup_round_returns:
  assumes "uniform (map snd cur)" "cur \<noteq> []"
  shows "\<exists>out. dedup_round np cur t = Inr out"
  using assms by (simp add: dedup_round_eq)

lemma uniform_filter:
  assumes "uniform (map snd cur)"
  shows "uniform (map snd (filter P cur))"
proof -
  from assms have all: "\<forall>x \<in> set cur. length (snd x) = length (hd (map snd cur))"
    by (auto simp: uniform_def list_all_iff)
  show ?thesis
  proof (cases "filter P cur")
    case Nil
    then show ?thesis by (simp add: uniform_def)
  next
    case (Cons x xs)
    then have "x \<in> set (filter P cur)" by simp
    then have "x \<in> set cur" by simp
    with all have hx: "length (snd x) = length (hd (map snd cur))" by blast
    have "\<forall>y \<in> set (filter P cur). length (snd y) = length (snd x)"
      using all hx by auto
    then show ?thesis unfolding Cons [symmetric] using Cons
      by (auto simp: uniform_def list_all_iff)
  qed
qed

lemma scan_pairs_first:
  assumes "distinct users" "users \<noteq> []"
  shows "users ! 0 \<notin> scan_pairs users sim t"
  using scan_pairs_iff [OF assms(1), of 0 sim t] assms(2) by simp

lemma dedup_round_keeps_first:
  assumes "distinct (map fst cur)" "dedup_round np cur t = Inr out"
  shows "out \<noteq> [] \<and> hd out = hd cur"
proof -
  note D = dedup_round_InrD [OF assms(2)]
  obtain x xs where cur: "cur = x # xs" using D(2) by (cases cur) auto
  have "(map fst cur) ! 0 \<notin> scan_pairs (map fst cur) (similarities np (map snd cur)) t"
    using scan_pairs_first [OF assms(1)] D(2) by simp
  then have "fst x \<notin> scan_pairs (map fst cur) (similarities np (map snd cur)) t"
    by (simp add: cur)
  then show ?thesis unfolding D(3) by (simp add: cur case_prod_unfold)
qed

lemma dedup_round_sub:
  assumes "dedup_round np cur t = Inr out"
  shows "set out \<subseteq> set cur" "length out \<le> length cur"
    "distinct (map fst cur) \<Longrightarrow> distinct (map fst out)" "uniform (map snd out)"
  using dedup_round_InrD [OF assms] uniform_filter
  by (auto simp: distinct_map_filter)

lemma filter_same_length: "length (filter P xs) = length xs \<Longrightarrow> filter P xs = xs"
proof (induction xs)
  case Nil
  show ?case by simp
next
  case (Cons x xs)
  have le: "length (filter P xs) \<le> length xs" by simp
  show ?case
  proof (cases "P x")
    case True
    with Cons show ?thesis by simp
  next
    case False
    with Cons.prems le show ?thesis by simp
  qed
qed

lemma dedup_round_same_length:
  assumes "dedup_round np cur t = Inr out" "length out = length cur"
  shows "out = cur"
  using dedup_round_InrD(3) [OF assms(1)] assms(2) filter_same_length by metis

section \<open>Deduplication: the loop\<close>

lemma dedup_loop_stop:
  "\<not> (int (length cur) \<noteq> prev \<and> iteration < runs) \<Longrightarrow>
     dedup_loop np cur prev iteration threshold runs = Inr (cur, iteration)"
  by (subst dedup_loop.simps) auto

lemma dedup_loop_step:
  "int (length cur) \<noteq> prev \<Longrightarrow> iteration < runs \<Longrightarrow>
     dedup_loop np cur prev iteration threshold runs =
       (case dedup_round np cur threshold of
          Inl e \<Rightarrow> Inl e
        | Inr cur' \<Rightarrow> dedup_loop np cur' (int (length cur)) (iteration + 1) threshold runs)"
  by (subst dedup_loop.simps) simp

lemma dedup_loop_rounds:
  "dedup_loop np cur prev iteration threshold runs = Inr (out, n) \<Longrightarrow>
     iteration \<le> n \<and> n \<le> max iteration runs"
proof (induction np cur prev iteration threshold runs rule: dedup_loop.induct)
  case (1 np cur prev iteration threshold runs)
  show ?case
  proof (cases "int (length cur) \<noteq> prev \<and> iteration < runs")
    case False
    with "1.prems" show ?thesis by (simp add: dedup_loop_stop)
  next
    case True
    then obtain cur' where r: "dedup_round np cur threshold = Inr cur'"
      and l: "dedup_loop np cur' (int (length cur)) (iteration + 1) threshold runs = Inr (out, n)"
      using "1.prems" by (cases "dedup_round np cur threshold") (simp_all add: dedup_loop_step)
    from "1.IH" [OF True r l] True show ?thesis by auto
  qed
qed

text \<open>
  Where an entry of the similarity matrix is a function \<open>h\<close> of the two vectors, the users
  that a round keeps are pairwise below the threshold, and a round keeps all of such a
  dict.
\<close>

lemma survivors_pairwise:
  assumes d: "distinct (map fst cur)" and r: "dedup_round np cur t = Inr out"
    and h: "\<And>i j. i < length cur \<Longrightarrow> j < length cur \<Longrightarrow>
              similarities np (map snd cur) ! i ! j = h (snd (cur ! i)) (snd (cur ! j))"
  shows "sorted_wrt (\<lambda>x y. \<not> h (snd x) (snd y) \<ge> t) out"
proof -
  let ?users = "map fst cur"
  let ?M = "similarities np (map snd cur)"
  let ?D = "scan_pairs ?users ?M t"
  note D = dedup_round_InrD [OF r]
  have "sorted_wrt (\<lambda>x y. fst x \<notin> ?D \<and> fst y \<notin> ?D \<longrightarrow> \<not> h (snd x) (snd y) \<ge> t) cur"
    unfolding sorted_wrt_iff_nth_less
  proof (intro allI impI)
    fix i j assume ij: "i < j" and j: "j < length cur"
      and nd: "fst (cur ! i) \<notin> ?D \<and> fst (cur ! j) \<notin> ?D"
    have i: "i < length cur" using ij j by simp
    have "?users ! j \<notin> ?D" using nd j by simp
    then have "\<not> (\<exists>i<j. ?users ! i \<notin> ?D \<and> ?M ! i ! j \<ge> t)"
      using scan_pairs_iff [OF d, of j ?M t] j by simp
    then have "\<not> ?M ! i ! j \<ge> t"
      using ij nd i by auto
    then show "\<not> h (snd (cur ! i)) (snd (cur ! j)) \<ge> t"
      using h [OF i j] by simp
  qed
  then have a: "sorted_wrt (\<lambda>x y. fst x \<notin> ?D \<and> fst y \<notin> ?D \<longrightarrow> \<not> h (snd x) (snd y) \<ge> t) out"
    unfolding D(3) by (rule sorted_wrt_filter)
  have b: "\<And>x. x \<in> set out \<Longrightarrow> fst x \<notin> ?D"
    unfolding D(3) by auto
  from a show ?thesis
    by (rule sorted_wrt_mono_rel [rotated]) (use b in blast)
qed

lemma dedup_round_fixpoint:
  assumes d: "distinct (map fst cur)" and u: "uniform (map snd cur)" and ne: "cur \<noteq> []"
    and s: "sorted_wrt (\<lambda>x y. \<not> h (snd x) (snd y) \<ge> t) cur"
    and h: "\<And>i j. i < length cur \<Longrightarrow> j < length cur \<Longrightarrow>
              similarities np (map snd cur) ! i ! j = h (snd (cur ! i)) (snd (cur ! j))"
  shows "dedup_round np cur t = Inr cur"
proof -
  let ?users = "map fst cur"
  let ?M = "similarities np (map snd cur)"
  let ?D = "scan_pairs ?users ?M t"
  have none: "?users ! j \<notin> ?D" if j: "j < length cur" for j
  proof
    assume "?users ! j \<in> ?D"
    then obtain i where i: "i < j" "?M ! i ! j \<ge> t"
      using scan_pairs_iff [OF d, of j ?M t] j by auto
    have il: "i < length cur" using i(1) j by simp
    have "h (snd (cur ! i)) (snd (cur ! j)) \<ge> t"
      using i(2) h [OF il j] by simp
    moreover have "\<not> h (snd (cur ! i)) (snd (cur ! j)) \<ge> t"
      using s i(1) j by (simp add: sorted_wrt_iff_nth_less)
    ultimately show False by simp
  qed
  have "\<forall>x \<in> set cur. fst x \<notin> ?D"
  proof
    fix x assume "x \<in> set cur"
    then obtain j where "j < length cur" "cur ! j = x" by (auto simp: in_set_conv_nth)
    with none [of j] show "fst x \<notin> ?D" by auto
  qed
  then have "filter (\<lambda>(user, vector). user \<notin> ?D) cur = cur"
    by (auto simp: filter_id_conv)
  moreover have "dedup_round np cur t = Inr (filter (\<lambda>(user, vector). user \<notin> ?D) cur)"
    unfolding dedup_round_eq using u ne by simp
  ultimately show ?thesis by (simp only:)
qed

lemma position_independent_similarities:
  assumes "position_independent np"
  shows "\<exists>h. \<forall>vecs i j. i < length vecs \<longrightarrow> j < length vecs \<longrightarrow>
           similarities np vecs ! i ! j = h (vecs ! i) (vecs ! j)"
proof -
  from assms obtain f where
    f: "\<forall>m i j. i < length m \<longrightarrow> j < length m \<longrightarrow> dot_entry np m i j = f (m ! i) (m ! j)"
    unfolding position_independent_def ..
  define g where
    "g = (\<lambda>v. map (\<lambda>a. true_divide np a (if linalg_norm np v = 0 then 1 else linalg_norm np v)) v)"
  have n: "normalize_rows np vecs = map g vecs" for vecs
    unfolding normalize_rows_eq g_def ..
  have "\<forall>vecs i j. i < length vecs \<longrightarrow> j < length vecs \<longrightarrow>
           similarities np vecs ! i ! j = f (g (vecs ! i)) (g (vecs ! j))"
    using f by (simp add: similarities_nth n)
  then show ?thesis by (intro exI [of _ "\<lambda>a b. f (g a) (g b)"])
qed

lemma position_independent_exact: "position_independent exact"
  unfolding position_independent_def
  by (intro exI [of _ dot]) simp

lemma dedup_round_idem:
  assumes p: "position_independent np"
    and d: "distinct (map fst cur)" and r: "dedup_round np cur t = Inr out"
  shows "dedup_round np out t = Inr out"
proof -
  from position_independent_similarities [OF p] obtain h where
    h: "\<forall>vecs i j. i < length vecs \<longrightarrow> j < length vecs \<longrightarrow>
           similarities np vecs ! i ! j = h (vecs ! i) (vecs ! j)" ..
  have hc: "similarities np (map snd c) ! i ! j = h (snd (c ! i)) (snd (c ! j))"
    if "i < length c" "j < length c" for c :: user_vectors and i j
    using h that by simp
  show ?thesis
  proof (rule dedup_round_fixpoint [where h = h])
    show "distinct (map fst out)" by (rule dedup_round_sub(3) [OF r d])
    show "uniform (map snd out)" by (rule dedup_round_sub(4) [OF r])
    show "out \<noteq> []" using dedup_round_keeps_first [OF d r] by simp
    show "sorted_wrt (\<lambda>x y. \<not> h (snd x) (snd y) \<ge> t) out"
      by (rule survivors_pairwise [OF d r]) (rule hc)
    show "\<And>i j. i < length out \<Longrightarrow> j < length out \<Longrightarrow>
            similarities np (map snd out) ! i ! j = h (snd (out ! i)) (snd (out ! j))"
      by (rule hc)
  qed
qed

text \<open>
  The loop returns its argument without a round, or what it returns is the result of a
  round; and when it returns before the cap, after a round, that round has kept every
  user of what is returned.
\<close>

lemma dedup_loop_result:
  "dedup_loop np cur prev iteration t runs = Inr (out, n) \<Longrightarrow> distinct (map fst cur) \<Longrightarrow>
     (out = cur \<and> n = iteration \<and> \<not> (int (length cur) \<noteq> prev \<and> iteration < runs))
     \<or> (iteration < n \<and> (\<exists>c. distinct (map fst c) \<and> dedup_round np c t = Inr out))"
proof (induction np cur prev iteration t runs rule: dedup_loop.induct)
  case (1 np cur prev iteration threshold runs)
  show ?case
  proof (cases "int (length cur) \<noteq> prev \<and> iteration < runs")
    case False
    with "1.prems" show ?thesis by (simp add: dedup_loop_stop)
  next
    case True
    then obtain cur' where r: "dedup_round np cur threshold = Inr cur'"
      and l: "dedup_loop np cur' (int (length cur)) (iteration + 1) threshold runs = Inr (out, n)"
      using "1.prems" by (cases "dedup_round np cur threshold") (simp_all add: dedup_loop_step)
    have d': "distinct (map fst cur')" using dedup_round_sub(3) [OF r "1.prems"(2)] .
    from "1.IH" [OF True r l d'] show ?thesis
    proof
      assume "out = cur' \<and> n = iteration + 1 \<and>
        \<not> (int (length cur') \<noteq> int (length cur) \<and> iteration + 1 < runs)"
      then show ?thesis using r "1.prems"(2) by auto
    next
      assume "iteration + 1 < n \<and> (\<exists>c. distinct (map fst c) \<and> dedup_round np c threshold = Inr out)"
      then show ?thesis by auto
    qed
  qed
qed

lemma dedup_loop_before_cap:
  "dedup_loop np cur prev iteration t runs = Inr (out, n) \<Longrightarrow> n < runs \<Longrightarrow>
     (out = cur \<and> n = iteration \<and> int (length cur) = prev) \<or> dedup_round np out t = Inr out"
proof (induction np cur prev iteration t runs rule: dedup_loop.induct)
  case (1 np cur prev iteration threshold runs)
  show ?case
  proof (cases "int (length cur) \<noteq> prev \<and> iteration < runs")
    case False
    with "1.prems" show ?thesis by (auto simp: dedup_loop_stop)
  next
    case True
    then obtain cur' where r: "dedup_round np cur threshold = Inr cur'"
      and l: "dedup_loop np cur' (int (length cur)) (iteration + 1) threshold runs = Inr (out, n)"
      using "1.prems" by (cases "dedup_round np cur threshold") (simp_all add: dedup_loop_step)
    from "1.IH" [OF True r l "1.prems"(2)] show ?thesis
    proof
      assume a: "out = cur' \<and> n = iteration + 1 \<and> int (length cur') = int (length cur)"
      then have "cur' = cur" using dedup_round_same_length [OF r] by simp
      with a r show ?thesis by simp
    next
      assume "dedup_round np out threshold = Inr out"
      then show ?thesis by simp
    qed
  qed
qed

lemma dedup_loop_sub:
  "dedup_loop np cur prev iteration t runs = Inr (out, n) \<Longrightarrow>
     set out \<subseteq> set cur \<and> length out \<le> length cur"
proof (induction np cur prev iteration t runs rule: dedup_loop.induct)
  case (1 np cur prev iteration threshold runs)
  show ?case
  proof (cases "int (length cur) \<noteq> prev \<and> iteration < runs")
    case False
    with "1.prems" show ?thesis by (simp add: dedup_loop_stop)
  next
    case True
    then obtain cur' where r: "dedup_round np cur threshold = Inr cur'"
      and l: "dedup_loop np cur' (int (length cur)) (iteration + 1) threshold runs = Inr (out, n)"
      using "1.prems" by (cases "dedup_round np cur threshold") (simp_all add: dedup_loop_step)
    from "1.IH" [OF True r l] dedup_round_sub(1,2) [OF r] show ?thesis by auto
  qed
qed

lemma deduplicate_InrD:
  "deduplicate np v t runs = Inr out \<Longrightarrow> \<exists>n. dedup_loop np v (- 1) 0 t runs = Inr (out, n)"
  by (cases "dedup_loop np v (- 1) 0 t runs") (auto simp: deduplicate_def)

lemma deduplicate_of_fixpoint:
  assumes "dedup_round np out t = Inr out"
  shows "deduplicate np out t runs = Inr out"
proof (cases "0 < runs")
  case False
  then show ?thesis by (simp add: deduplicate_def dedup_loop_stop)
next
  case True
  have "dedup_loop np out (- 1) 0 t runs = dedup_loop np out (int (length out)) 1 t runs"
    using True assms by (simp add: dedup_loop_step)
  also have "\<dots> = Inr (out, 1)" by (simp add: dedup_loop_stop)
  finally show ?thesis by (simp add: deduplicate_def)
qed

lemma deduplicate_idem_before_cap:
  assumes l: "dedup_loop np v (- 1) 0 t runs = Inr (out, n)" and n: "n < runs \<or> runs \<le> 0"
  shows "deduplicate np out t runs = Inr out"
proof (cases "runs \<le> 0")
  case True
  then show ?thesis by (simp add: deduplicate_def dedup_loop_stop)
next
  case False
  with n have "n < runs" by simp
  from dedup_loop_before_cap [OF l this] have "dedup_round np out t = Inr out" by auto
  then show ?thesis by (rule deduplicate_of_fixpoint)
qed

lemma deduplicate_idem:
  assumes p: "position_independent np"
    and d: "distinct (map fst v)" and l: "dedup_loop np v (- 1) 0 t runs = Inr (out, n)"
  shows "deduplicate np out t runs = Inr out"
proof -
  from dedup_loop_result [OF l d] show ?thesis
  proof
    assume "out = v \<and> n = 0 \<and> \<not> (int (length v) \<noteq> - 1 \<and> 0 < runs)"
    then show ?thesis by (simp add: deduplicate_def dedup_loop_stop)
  next
    assume "0 < n \<and> (\<exists>c. distinct (map fst c) \<and> dedup_round np c t = Inr out)"
    then obtain c where c: "distinct (map fst c)" "dedup_round np c t = Inr out" by blast
    have "dedup_round np out t = Inr out" by (rule dedup_round_idem [OF p c])
    then show ?thesis by (rule deduplicate_of_fixpoint)
  qed
qed

lemma dedup_loop_Inl:
  "dedup_loop np cur prev iteration t runs = Inl e \<Longrightarrow> distinct (map fst cur) \<Longrightarrow>
     dedup_round np cur t = Inl e \<and> int (length cur) \<noteq> prev \<and> iteration < runs"
proof (induction np cur prev iteration t runs rule: dedup_loop.induct)
  case (1 np cur prev iteration threshold runs)
  show ?case
  proof (cases "int (length cur) \<noteq> prev \<and> iteration < runs")
    case False
    with "1.prems" show ?thesis by (simp add: dedup_loop_stop)
  next
    case True
    show ?thesis
    proof (cases "dedup_round np cur threshold")
      case (Inl e')
      with True "1.prems" show ?thesis by (simp add: dedup_loop_step)
    next
      case (Inr cur')
      then have l: "dedup_loop np cur' (int (length cur)) (iteration + 1) threshold runs = Inl e"
        using True "1.prems" by (simp add: dedup_loop_step)
      have d': "distinct (map fst cur')" using dedup_round_sub(3) [OF Inr "1.prems"(2)] .
      from "1.IH" [OF True Inr l d'] have "dedup_round np cur' threshold = Inl e" by simp
      moreover have "\<exists>out. dedup_round np cur' threshold = Inr out"
        using dedup_round_returns [OF dedup_round_sub(4) [OF Inr]]
          dedup_round_keeps_first [OF "1.prems"(2) Inr] by simp
      ultimately show ?thesis by auto
    qed
  qed
qed

subsection \<open>A dict of three users\<close>

lemma l2norm_simps:
  "l2norm [1, 0] = 1" "l2norm [0, 1] = 1" "l2norm [2, 0] = 2"
  by (simp_all add: l2norm_def)

lemma cosine_simps:
  "cosine [1, 0] [1, 0] = 1" "cosine [1, 0] [0, 1] = 0" "cosine [1, 0] [2, 0] = 1"
  "cosine [0, 1] [1, 0] = 0" "cosine [0, 1] [0, 1] = 1" "cosine [0, 1] [2, 0] = 0"
  "cosine [2, 0] [1, 0] = 1" "cosine [2, 0] [0, 1] = 0" "cosine [2, 0] [2, 0] = 1"
  by (simp_all add: cosine_def unit_vector_def l2norm_simps dot_def)

lemma scan_pairs_abc:
  "scan_pairs [''a'', ''b'', ''c''] (cosine_matrix [[1, 0], [0, 1], [2, 0]]) 1 = {''c''}"
  by (simp add: scan_pairs_def scan_row_def cosine_matrix_def cosine_simps
      upt_rec [of 0] upt_rec [of 1] upt_rec [of 2] upt_rec [of 3])

lemma dedup_round_abc:
  "dedup_round exact [(''a'', [1, 0]), (''b'', [0, 1]), (''c'', [2, 0])] 1
     = Inr [(''a'', [1, 0]), (''b'', [0, 1])]"
  by (simp add: dedup_round_eq similarities_exact uniform_def scan_pairs_abc)

lemma dedup_round_ab:
  "dedup_round exact [(''a'', [1, 0]), (''b'', [0, 1])] 1 = Inr [(''a'', [1, 0]), (''b'', [0, 1])]"
  by (simp add: dedup_round_eq similarities_exact uniform_def scan_pairs_def scan_row_def
      cosine_matrix_def cosine_simps upt_rec [of 0] upt_rec [of 1] upt_rec [of 2])

lemma dedup_loop_abc:
  "dedup_loop exact [(''a'', [1, 0]), (''b'', [0, 1]), (''c'', [2, 0])] (- 1) 0 1 5
     = Inr ([(''a'', [1, 0]), (''b'', [0, 1])], 2)"
  by (simp add: dedup_loop_step dedup_loop_stop dedup_round_abc dedup_round_ab)

lemma deduplicate_abc:
  "deduplicate exact [(''a'', [1, 0]), (''b'', [0, 1]), (''c'', [2, 0])] 1 5
     = Inr [(''a'', [1, 0]), (''b'', [0, 1])]"
  by (simp add: deduplicate_def dedup_loop_abc)

section \<open>Float64 arithmetic\<close>

lemma float64_0 [simp]: "float64 0 = 0"
  by (simp add: float64_def)

lemma round_even_eqI:
  assumes "of_int m - 1 / 2 < x" "x < of_int m + 1 / 2"
  shows "round_even x = m"
proof -
  have "\<lfloor>x\<rfloor> = m \<or> \<lfloor>x\<rfloor> = m - 1"
  proof -
    have "m - 1 \<le> \<lfloor>x\<rfloor>" using assms(1) by (simp add: le_floor_iff)
    moreover have "\<lfloor>x\<rfloor> \<le> m" using assms(2) by (simp add: floor_le_iff)
    ultimately show ?thesis by linarith
  qed
  then show ?thesis
  proof
    assume f: "\<lfloor>x\<rfloor> = m"
    then have "x - of_int \<lfloor>x\<rfloor> < 1 / 2" using assms(2) by simp
    then show ?thesis using f by (simp add: round_even_def Let_def)
  next
    assume f: "\<lfloor>x\<rfloor> = m - 1"
    then have "1 / 2 < x - of_int \<lfloor>x\<rfloor>" using assms(1) by simp
    then show ?thesis using f by (simp add: round_even_def Let_def)
  qed
qed

lemma log2_power: "log 2 ((2::real) ^ m) = real m"
  by (simp add: log_nat_power)

lemma floor_log2:
  fixes y :: real
  assumes "2 ^ n \<le> y" "y < 2 ^ Suc n"
  shows "\<lfloor>log 2 y\<rfloor> = int n"
proof (rule floor_unique)
  have "(0::real) < 2 ^ n" by simp
  with assms(1) have pos: "0 < y" by linarith
  have "log 2 (2 ^ n) \<le> log 2 y" using assms(1) pos by (subst log_le_cancel_iff) simp_all
  then show "of_int (int n) \<le> log 2 y" by (simp add: log2_power)
  have "log 2 y < log 2 (2 ^ Suc n)" using assms(2) pos by (subst log_less_cancel_iff) simp_all
  then have "log 2 y < real (Suc n)" by (simp only: log2_power)
  then show "log 2 y < of_int (int n) + 1" by simp
qed

text \<open>
  A positive \<open>x\<close> whose multiple \<open>x * 2 ^ k\<close> lies between \<open>2 ^ 52\<close> and \<open>2 ^ 53\<close> is
  rounded to the nearest quotient of an integer by \<open>2 ^ k\<close>.
\<close>

lemma float64_binade:
  assumes "2 ^ 52 \<le> x * 2 ^ k" "x * 2 ^ k < 2 ^ 53"
  shows "float64 x = of_int (round_even (x * 2 ^ k)) / 2 ^ k"
proof -
  have "(0::real) < 2 ^ 52" by simp
  with assms(1) have pos: "0 < x * 2 ^ k" by linarith
  then have x: "0 < x" by (simp add: zero_less_mult_iff)
  have "log 2 (x * 2 ^ k) = log 2 x + of_int (int k)"
    using x by (simp add: log_mult log_nat_power)
  then have "\<lfloor>log 2 (x * 2 ^ k)\<rfloor> = \<lfloor>log 2 x\<rfloor> + int k"
    by (simp only: floor_add_int)
  moreover have "\<lfloor>log 2 (x * 2 ^ k)\<rfloor> = int 52"
    by (rule floor_log2) (use assms in simp_all)
  ultimately have e: "\<lfloor>log 2 \<bar>x\<bar>\<rfloor> - 52 = - int k"
    using x by simp
  have p: "(2::real) powr of_int (- int k) = 1 / 2 ^ k"
    by (simp add: powr_minus powr_realpow divide_simps)
  show ?thesis
    using x unfolding float64_def Let_def e p by simp
qed

lemma float64_eqI:
  assumes "2 ^ 52 \<le> x * 2 ^ k" "x * 2 ^ k < 2 ^ 53"
    and "of_int m - 1 / 2 < x * 2 ^ k" "x * 2 ^ k < of_int m + 1 / 2"
  shows "float64 x = of_int m / 2 ^ k"
  using float64_binade [OF assms(1,2)] round_even_eqI [OF assms(3,4)] by simp

lemma sqrt_between:
  fixes s a b :: real
  assumes "0 \<le> a" "a * a < s" "s < b * b" "0 \<le> b"
  shows "a < sqrt s \<and> sqrt s < b"
proof
  show "a < sqrt s" using assms(1,2) by (intro real_less_rsqrt) (simp add: power2_eq_square)
  show "sqrt s < b" using assms(3,4) by (intro real_less_lsqrt) (simp_all add: power2_eq_square)
qed

lemma float64_sqrt_eqI:
  assumes m: "2 ^ 52 < m" "m < 2 ^ 53"
    and lo: "(of_int m - 1 / 2) * (of_int m - 1 / 2) < s * 2 ^ k * 2 ^ k"
    and hi: "s * 2 ^ k * 2 ^ k < (of_int m + 1 / 2) * (of_int m + 1 / 2)"
  shows "float64 (sqrt s) = of_int m / 2 ^ k"
proof -
  have m1: "(2::real) ^ 52 + 1 \<le> of_int m"
  proof -
    have "(2::int) ^ 52 + 1 \<le> m" using m(1) by simp
    then have "of_int ((2::int) ^ 52 + 1) \<le> (of_int m :: real)" by (simp only: of_int_le_iff)
    then show ?thesis by simp
  qed
  have m2: "of_int m \<le> (2::real) ^ 53 - 1"
  proof -
    have "m \<le> (2::int) ^ 53 - 1" using m(2) by simp
    then have "(of_int m :: real) \<le> of_int ((2::int) ^ 53 - 1)" by (simp only: of_int_le_iff)
    then show ?thesis by simp
  qed
  have sq: "sqrt (s * 2 ^ k * 2 ^ k) = sqrt s * 2 ^ k"
    by (simp add: real_sqrt_mult mult.assoc)
  have "of_int m - 1 / 2 < sqrt (s * 2 ^ k * 2 ^ k) \<and> sqrt (s * 2 ^ k * 2 ^ k) < of_int m + 1 / 2"
    by (rule sqrt_between) (use m1 lo hi in simp_all)
  then have b: "of_int m - 1 / 2 < sqrt s * 2 ^ k" "sqrt s * 2 ^ k < of_int m + 1 / 2"
    unfolding sq by simp_all
  show ?thesis
    by (rule float64_eqI) (use b m1 m2 in simp_all)
qed

lemma round_even_tie:
  assumes "x = of_int f + 1 / 2"
  shows "round_even x = (if even f then f else f + 1)"
proof -
  have "\<lfloor>x\<rfloor> = f" unfolding assms by (rule floor_unique) simp_all
  then show ?thesis using assms by (simp add: round_even_def Let_def)
qed

lemma float64_tieI:
  assumes "2 ^ 52 \<le> x * 2 ^ k" "x * 2 ^ k < 2 ^ 53"
    and "x * 2 ^ k = of_int f + 1 / 2"
  shows "float64 x = of_int (if even f then f else f + 1) / 2 ^ k"
  using float64_binade [OF assms(1,2)] round_even_tie [OF assms(3)] by simp

subsection \<open>The vector (4/7, 3/7)\<close>

text \<open>
  The float64 numbers nearest to 4/7 and 3/7, the norm of the vector of the two, the
  quotients by the norm, which are 0.8 and 0.6000000000000001, and the dot product of the
  normalized vector with itself, which is the float64 number above 1 both ways.
\<close>

lemma float64_example_4_7:
  "float64 (4 / 7) = 5146971002709138 / 2 ^ 53"
  "float64 (3 / 7) = 7720456504063707 / 2 ^ 54"
  "float64_norm [5146971002709138 / 2 ^ 53, 7720456504063707 / 2 ^ 54] = 6433713753386422 / 2 ^ 53"
  "float64_divide (5146971002709138 / 2 ^ 53) (6433713753386422 / 2 ^ 53) = 7205759403792794 / 2 ^ 53"
  "float64_divide (7720456504063707 / 2 ^ 54) (6433713753386422 / 2 ^ 53) = 5404319552844596 / 2 ^ 53"
  "float64_dot [7205759403792794 / 2 ^ 53, 5404319552844596 / 2 ^ 53]
     [7205759403792794 / 2 ^ 53, 5404319552844596 / 2 ^ 53] = 4503599627370497 / 2 ^ 52"
  "float64_dot_fma [7205759403792794 / 2 ^ 53, 5404319552844596 / 2 ^ 53]
     [7205759403792794 / 2 ^ 53, 5404319552844596 / 2 ^ 53] = 4503599627370497 / 2 ^ 52"
proof -
  let ?x = "5146971002709138 / 2 ^ 53 :: real"
  let ?y = "7720456504063707 / 2 ^ 54 :: real"
  let ?xx = "5882252574524729 / 2 ^ 54 :: real"
  let ?yy = "6617534146340320 / 2 ^ 55 :: real"
  let ?s = "4595509823847444 / 2 ^ 53 :: real"
  let ?n = "6433713753386422 / 2 ^ 53 :: real"
  let ?u = "7205759403792794 / 2 ^ 53 :: real"
  let ?v = "5404319552844596 / 2 ^ 53 :: real"
  let ?uu = "5764607523034236 / 2 ^ 53 :: real"
  let ?vv = "6485183463413516 / 2 ^ 54 :: real"
  let ?d = "4503599627370497 / 2 ^ 52 :: real"
  let ?f = "4503599627370497 / 2 ^ 52 :: real"
  have x: "float64 (4 / 7) = ?x"
    using float64_eqI [where x = "4 / 7" and k = 53 and m = 5146971002709138] by simp
  have y: "float64 (3 / 7) = ?y"
    using float64_eqI [where x = "3 / 7" and k = 54 and m = 7720456504063707] by simp
  have xx: "float64 (?x * ?x) = ?xx"
    using float64_eqI [where x = "?x * ?x" and k = 54 and m = 5882252574524729] by simp
  have yy: "float64 (?y * ?y) = ?yy"
    using float64_eqI [where x = "?y * ?y" and k = 55 and m = 6617534146340320] by simp
  have s: "float64 (?xx + ?yy) = ?s"
    using float64_tieI [where x = "?xx + ?yy" and k = 53 and f = 4595509823847444] by simp
  have n: "float64 (sqrt ?s) = ?n"
    using float64_sqrt_eqI [where s = "?s" and k = 53 and m = 6433713753386422] by simp
  have u: "float64 (?x / ?n) = ?u"
    using float64_eqI [where x = "?x / ?n" and k = 53 and m = 7205759403792794] by simp
  have v: "float64 (?y / ?n) = ?v"
    using float64_eqI [where x = "?y / ?n" and k = 53 and m = 5404319552844596] by simp
  have uu: "float64 (?u * ?u) = ?uu"
    using float64_eqI [where x = "?u * ?u" and k = 53 and m = 5764607523034236] by simp
  have vv: "float64 (?v * ?v) = ?vv"
    using float64_eqI [where x = "?v * ?v" and k = 54 and m = 6485183463413516] by simp
  have d: "float64 (?uu + ?vv) = ?d"
    using float64_eqI [where x = "?uu + ?vv" and k = 52 and m = 4503599627370497] by simp
  have f: "float64 (?uu + ?v * ?v) = ?f"
    using float64_eqI [where x = "?uu + ?v * ?v" and k = 52 and m = 4503599627370497] by simp
  show "float64 (4 / 7) = ?x" by (rule x)
  show "float64 (3 / 7) = ?y" by (rule y)
  show "float64_norm [?x, ?y] = ?n"
    by (simp only: float64_norm_def list.map float64_sum.simps foldl.simps xx yy s n)
  show "float64_divide ?x ?n = ?u" by (simp only: float64_divide_def u)
  show "float64_divide ?y ?n = ?v" by (simp only: float64_divide_def v)
  show "float64_dot [?u, ?v] [?u, ?v] = ?d"
    by (simp only: float64_dot_def zip.simps list.case list.map prod.case float64_sum.simps foldl.simps
        uu vv d)
  show "float64_dot_fma [?u, ?v] [?u, ?v] = ?f"
    by (simp only: float64_dot_fma_def zip.simps list.case prod.case foldl.simps uu f)
qed

subsection \<open>The vector (1/4, 3/4)\<close>

text \<open>
  The norm of the vector, the quotients by the norm, and the dot product of the normalized
  vector with itself: the float64 number below 1 when every product is rounded, and 1 with
  fused multiply-add.
\<close>

lemma float64_example_1_3:
  "float64_norm [1 / 4, 3 / 4] = 7120816245988179 / 2 ^ 53"
  "float64_divide (1 / 4) (7120816245988179 / 2 ^ 53) = 5696652996790543 / 2 ^ 54"
  "float64_divide (3 / 4) (7120816245988179 / 2 ^ 53) = 8544979495185814 / 2 ^ 53"
  "float64_dot [5696652996790543 / 2 ^ 54, 8544979495185814 / 2 ^ 53]
     [5696652996790543 / 2 ^ 54, 8544979495185814 / 2 ^ 53] = 9007199254740991 / 2 ^ 53"
  "float64_dot_fma [5696652996790543 / 2 ^ 54, 8544979495185814 / 2 ^ 53]
     [5696652996790543 / 2 ^ 54, 8544979495185814 / 2 ^ 53] = 9007199254740992 / 2 ^ 53"
proof -
  let ?x = "1 / 4 :: real"
  let ?y = "3 / 4 :: real"
  let ?xx = "4503599627370496 / 2 ^ 56 :: real"
  let ?yy = "5066549580791808 / 2 ^ 53 :: real"
  let ?s = "5629499534213120 / 2 ^ 53 :: real"
  let ?n = "7120816245988179 / 2 ^ 53 :: real"
  let ?u = "5696652996790543 / 2 ^ 54 :: real"
  let ?v = "8544979495185814 / 2 ^ 53 :: real"
  let ?uu = "7205759403792794 / 2 ^ 56 :: real"
  let ?vv = "8106479329266892 / 2 ^ 53 :: real"
  let ?d = "9007199254740991 / 2 ^ 53 :: real"
  let ?f = "9007199254740992 / 2 ^ 53 :: real"
  have xx: "float64 (?x * ?x) = ?xx"
    using float64_eqI [where x = "?x * ?x" and k = 56 and m = 4503599627370496] by simp
  have yy: "float64 (?y * ?y) = ?yy"
    using float64_eqI [where x = "?y * ?y" and k = 53 and m = 5066549580791808] by simp
  have s: "float64 (?xx + ?yy) = ?s"
    using float64_eqI [where x = "?xx + ?yy" and k = 53 and m = 5629499534213120] by simp
  have n: "float64 (sqrt ?s) = ?n"
    using float64_sqrt_eqI [where s = "?s" and k = 53 and m = 7120816245988179] by simp
  have u: "float64 (?x / ?n) = ?u"
    using float64_eqI [where x = "?x / ?n" and k = 54 and m = 5696652996790543] by simp
  have v: "float64 (?y / ?n) = ?v"
    using float64_eqI [where x = "?y / ?n" and k = 53 and m = 8544979495185814] by simp
  have uu: "float64 (?u * ?u) = ?uu"
    using float64_eqI [where x = "?u * ?u" and k = 56 and m = 7205759403792794] by simp
  have vv: "float64 (?v * ?v) = ?vv"
    using float64_eqI [where x = "?v * ?v" and k = 53 and m = 8106479329266892] by simp
  have d: "float64 (?uu + ?vv) = ?d"
    using float64_eqI [where x = "?uu + ?vv" and k = 53 and m = 9007199254740991] by simp
  have f: "float64 (?uu + ?v * ?v) = ?f"
    using float64_eqI [where x = "?uu + ?v * ?v" and k = 53 and m = 9007199254740992] by simp
  show "float64_norm [?x, ?y] = ?n"
    by (simp only: float64_norm_def list.map float64_sum.simps foldl.simps xx yy s n)
  show "float64_divide ?x ?n = ?u" by (simp only: float64_divide_def u)
  show "float64_divide ?y ?n = ?v" by (simp only: float64_divide_def v)
  show "float64_dot [?u, ?v] [?u, ?v] = ?d"
    by (simp only: float64_dot_def zip.simps list.case list.map prod.case float64_sum.simps foldl.simps
        uu vv d)
  show "float64_dot_fma [?u, ?v] [?u, ?v] = ?f"
    by (simp only: float64_dot_fma_def zip.simps list.case prod.case foldl.simps uu f)
qed

subsection \<open>The vectors (1, 0) and (1/4, 3/4)\<close>

lemma float64_1 [simp]: "float64 1 = 1"
  using float64_eqI [where x = 1 and k = 52 and m = "2 ^ 52"] by simp

lemma float64_example_1_0:
  "float64_norm [1, 0] = 1" "float64_divide 1 1 = 1" "float64_divide 0 1 = 0"
  "float64_dot [1, 0] [1, 0] = 1"
  "float64_dot [1, 0] [5696652996790543 / 2 ^ 54, 8544979495185814 / 2 ^ 53]
     = 5696652996790543 / 2 ^ 54"
  "float64_dot [5696652996790543 / 2 ^ 54, 8544979495185814 / 2 ^ 53] [1, 0]
     = 5696652996790543 / 2 ^ 54"
proof -
  let ?u = "5696652996790543 / 2 ^ 54 :: real"
  let ?v = "8544979495185814 / 2 ^ 53 :: real"
  have u: "float64 ?u = ?u"
    using float64_eqI [where x = "?u" and k = 54 and m = 5696652996790543] by simp
  show "float64_norm [1, 0] = 1" by (simp add: float64_norm_def)
  show "float64_divide 1 1 = 1" by (simp add: float64_divide_def)
  show "float64_divide 0 1 = 0" by (simp add: float64_divide_def)
  show "float64_dot [1, 0] [1, 0] = 1" by (simp add: float64_dot_def)
  show "float64_dot [1, 0] [?u, ?v] = ?u"
    by (simp only: float64_dot_def zip.simps list.case list.map prod.case float64_sum.simps
        foldl.simps mult_1 mult_zero_left add_0_right float64_0 u)
  show "float64_dot [?u, ?v] [1, 0] = ?u"
    by (simp only: float64_dot_def zip.simps list.case list.map prod.case float64_sum.simps
        foldl.simps mult_1_right mult_zero_right add_0_right float64_0 u)
qed

lemma normalize_rows_2:
  "normalize_rows np [a, b] =
     [map (\<lambda>x. true_divide np x (if linalg_norm np a = 0 then 1 else linalg_norm np a)) a,
      map (\<lambda>x. true_divide np x (if linalg_norm np b = 0 then 1 else linalg_norm np b)) b]"
  by (simp add: normalize_rows_eq)

lemma normalize_rows_3:
  "normalize_rows np [a, b, c] =
     [map (\<lambda>x. true_divide np x (if linalg_norm np a = 0 then 1 else linalg_norm np a)) a,
      map (\<lambda>x. true_divide np x (if linalg_norm np b = 0 then 1 else linalg_norm np b)) b,
      map (\<lambda>x. true_divide np x (if linalg_norm np c = 0 then 1 else linalg_norm np c)) c]"
  by (simp add: normalize_rows_eq)

lemma upt_simps: "[0 ..< Suc (Suc 0)] = [0, 1]" "[0 ..< Suc (Suc (Suc 0))] = [0, 1, 2]"
  by (simp_all add: upt_rec)

lemma float64_numpy_simps:
  "linalg_norm float64_numpy = float64_norm" "true_divide float64_numpy = float64_divide"
  "dot_T float64_numpy [a, b] = [[float64_dot a a, float64_dot a b], [float64_dot b a, float64_dot b b]]"
  "dot_entry float64_numpy m i j = float64_dot (m ! i) (m ! j)"
  by (simp_all add: float64_numpy_def dot_T_def upt_simps)

lemma float64_numpy_simd_simps:
  "linalg_norm float64_numpy_simd = float64_norm" "true_divide float64_numpy_simd = float64_divide"
  "dot_T float64_numpy_simd [a, b] =
     [[float64_dot_fma a a, float64_dot_fma a b], [float64_dot_fma b a, float64_dot_fma b b]]"
  "dot_T float64_numpy_simd [a, b, c] =
     [[float64_dot_fma a a, float64_dot_fma a b, float64_dot a c],
      [float64_dot_fma b a, float64_dot_fma b b, float64_dot b c],
      [float64_dot_fma c a, float64_dot_fma c b, float64_dot c c]]"
  by (simp_all add: float64_numpy_simd_def dot_T_def upt_simps)

subsection \<open>Three users with the vector (1/4, 3/4)\<close>

text \<open>
  The dot product of the normalized vector with itself is 1 when it is computed with fused
  multiply-add and the float64 below 1 when every product is rounded.
\<close>

lemma similarities_simd_3:
  "similarities float64_numpy_simd [[1 / 4, 3 / 4], [1 / 4, 3 / 4], [1 / 4, 3 / 4]] =
     [[1, 1, 1 - 1 / 2 ^ 53], [1, 1, 1 - 1 / 2 ^ 53], [1, 1, 1 - 1 / 2 ^ 53]]"
proof -
  have n0: "(7120816245988179 / 2 ^ 53 :: real) = 0 \<longleftrightarrow> False" by simp
  have "similarities float64_numpy_simd [[1 / 4, 3 / 4], [1 / 4, 3 / 4], [1 / 4, 3 / 4]] =
     [[9007199254740992 / 2 ^ 53, 9007199254740992 / 2 ^ 53, 9007199254740991 / 2 ^ 53],
      [9007199254740992 / 2 ^ 53, 9007199254740992 / 2 ^ 53, 9007199254740991 / 2 ^ 53],
      [9007199254740992 / 2 ^ 53, 9007199254740992 / 2 ^ 53, 9007199254740991 / 2 ^ 53]]"
    by (simp only: similarities_def normalize_rows_3 float64_numpy_simd_simps
        float64_example_1_3 n0 if_False list.map)
  then show ?thesis by simp
qed

lemma similarities_simd_2:
  "similarities float64_numpy_simd [[1 / 4, 3 / 4], [1 / 4, 3 / 4]] = [[1, 1], [1, 1]]"
proof -
  have n0: "(7120816245988179 / 2 ^ 53 :: real) = 0 \<longleftrightarrow> False" by simp
  have "similarities float64_numpy_simd [[1 / 4, 3 / 4], [1 / 4, 3 / 4]] =
     [[9007199254740992 / 2 ^ 53, 9007199254740992 / 2 ^ 53],
      [9007199254740992 / 2 ^ 53, 9007199254740992 / 2 ^ 53]]"
    by (simp only: similarities_def normalize_rows_2 float64_numpy_simd_simps
        float64_example_1_3 n0 if_False list.map)
  then show ?thesis by simp
qed

lemma dedup_round_simd_3:
  "dedup_round float64_numpy_simd
     [(''a'', [1 / 4, 3 / 4]), (''b'', [1 / 4, 3 / 4]), (''c'', [1 / 4, 3 / 4])] 1
   = Inr [(''a'', [1 / 4, 3 / 4]), (''c'', [1 / 4, 3 / 4])]"
proof -
  have "scan_pairs [''a'', ''b'', ''c'']
          [[1, 1, 1 - 1 / 2 ^ 53], [1, 1, 1 - 1 / 2 ^ 53], [1, 1, 1 - 1 / 2 ^ 53]] 1 = {''b''}"
    by (simp add: scan_pairs_def scan_row_def
        upt_rec [of 0] upt_rec [of 1] upt_rec [of 2] upt_rec [of 3])
  then show ?thesis
    by (simp add: dedup_round_eq uniform_def similarities_simd_3)
qed

lemma dedup_round_simd_2:
  "dedup_round float64_numpy_simd [(''a'', [1 / 4, 3 / 4]), (''c'', [1 / 4, 3 / 4])] 1
   = Inr [(''a'', [1 / 4, 3 / 4])]"
proof -
  have "scan_pairs [''a'', ''c''] [[1, 1], [1, 1]] 1 = {''c''}"
    by (simp add: scan_pairs_def scan_row_def upt_rec [of 0] upt_rec [of 1] upt_rec [of 2])
  then show ?thesis
    by (simp add: dedup_round_eq uniform_def similarities_simd_2)
qed

lemma deduplicate_simd_3:
  "deduplicate float64_numpy_simd
     [(''a'', [1 / 4, 3 / 4]), (''b'', [1 / 4, 3 / 4]), (''c'', [1 / 4, 3 / 4])] 1 1
   = Inr [(''a'', [1 / 4, 3 / 4]), (''c'', [1 / 4, 3 / 4])]"
  by (simp add: deduplicate_def dedup_loop_step dedup_loop_stop dedup_round_simd_3)

lemma deduplicate_simd_2:
  "deduplicate float64_numpy_simd [(''a'', [1 / 4, 3 / 4]), (''c'', [1 / 4, 3 / 4])] 1 1
   = Inr [(''a'', [1 / 4, 3 / 4])]"
  by (simp add: deduplicate_def dedup_loop_step dedup_loop_stop dedup_round_simd_2)

lemma position_independent_float64_numpy: "position_independent float64_numpy"
  unfolding position_independent_def
  by (intro exI [of _ float64_dot]) (simp add: float64_numpy_def)

section \<open>Deduplication: the claims\<close>




text \<open>
  C6. In a round on the users in their order in the dict, a user \<open>j\<close> is marked for removal
  exactly when an earlier user \<open>i < j\<close> that is not marked has a similarity with \<open>j\<close> of at
  least the threshold. So of every such pair the second user is marked, every removed user
  has an earlier user that survives the round, and a user with no earlier user that
  similar survives, as does the first user of the dict. The similarity is the entry of the
  matrix that the round computes; in exact arithmetic it is the cosine of the two vectors.
\<close>

theorem dedup_round_marks_second:
  assumes "distinct (map fst cur)" and "cur \<noteq> []" and "uniform (map snd cur)"
  shows "let sim = similarities np (map snd cur);
             todrop = scan_pairs (map fst cur) sim threshold
         in dedup_round np cur threshold = Inr (filter (\<lambda>(user, vector). user \<notin> todrop) cur)
            \<and> (\<forall>j < length cur. fst (cur ! j) \<in> todrop \<longleftrightarrow>
                  (\<exists>i < j. fst (cur ! i) \<notin> todrop \<and> sim ! i ! j \<ge> threshold))
            \<and> (\<forall>j < length cur.
                  (\<forall>i < j. sim ! i ! j < threshold) \<longrightarrow> fst (cur ! j) \<notin> todrop)
            \<and> fst (hd cur) \<notin> todrop
            \<and> (\<forall>i < length cur. \<forall>j < length cur.
                  similarities exact (map snd cur) ! i ! j
                    = cosine (snd (cur ! i)) (snd (cur ! j)))"
proof -
  let ?M = "similarities np (map snd cur)"
  let ?D = "scan_pairs (map fst cur) ?M threshold"
  have r: "dedup_round np cur threshold = Inr (filter (\<lambda>(user, vector). user \<notin> ?D) cur)"
    using assms(2,3) by (simp add: dedup_round_eq)
  have m: "fst (cur ! j) \<in> ?D \<longleftrightarrow>
             (\<exists>i < j. fst (cur ! i) \<notin> ?D \<and> ?M ! i ! j \<ge> threshold)"
    if j: "j < length cur" for j
  proof -
    have "fst (cur ! j) \<in> ?D \<longleftrightarrow> (\<exists>i < j. map fst cur ! i \<notin> ?D \<and> ?M ! i ! j \<ge> threshold)"
      using scan_pairs_iff [OF assms(1), of j ?M threshold] j by simp
    also have "\<dots> \<longleftrightarrow> (\<exists>i < j. fst (cur ! i) \<notin> ?D \<and> ?M ! i ! j \<ge> threshold)"
      using j by auto
    finally show ?thesis .
  qed
  have "map fst cur ! 0 \<notin> ?D"
    using scan_pairs_first [OF assms(1), of ?M threshold] assms(2) by simp
  then have h: "fst (hd cur) \<notin> ?D" using assms(2) by (simp add: hd_conv_nth)
  have f: "fst (cur ! j) \<notin> ?D"
    if "j < length cur" "\<forall>i < j. ?M ! i ! j < threshold" for j
    using m [OF that(1)] that(2) by (auto simp: not_le)
  have c: "\<forall>i < length cur. \<forall>j < length cur.
             similarities exact (map snd cur) ! i ! j = cosine (snd (cur ! i)) (snd (cur ! j))"
    by (simp add: similarities_exact_nth)
  from r m f h c show ?thesis unfolding Let_def by blast
qed

theorem dedup_round_marks_second_witness:
  "distinct (map fst [(''a'', [1, 0]), (''b'', [0, 1]), (''c'', [2, 0 :: real])])
   \<and> [(''a'', [1, 0]), (''b'', [0, 1]), (''c'', [2, 0 :: real])] \<noteq> []
   \<and> uniform (map snd [(''a'', [1, 0]), (''b'', [0, 1]), (''c'', [2, 0 :: real])])
   \<and> dedup_round exact [(''a'', [1, 0]), (''b'', [0, 1]), (''c'', [2, 0])] 1
       = Inr [(''a'', [1, 0]), (''b'', [0, 1])]"
proof -
  let ?c = "[(''a'', [1, 0]), (''b'', [0, 1]), (''c'', [2, 0 :: real])]"
  have d: "distinct (map fst ?c)" by simp
  have n: "?c \<noteq> []" by simp
  have u: "uniform (map snd ?c)" by (simp add: uniform_def)
  from dedup_round_marks_second [OF d n u, of exact 1]
  have "dedup_round exact ?c 1 = Inr (filter (\<lambda>(user, vector).
          user \<notin> scan_pairs (map fst ?c) (similarities exact (map snd ?c)) 1) ?c)"
    unfolding Let_def by (rule conjunct1)
  also have "\<dots> = Inr [(''a'', [1, 0]), (''b'', [0, 1])]"
    by (simp add: similarities_exact scan_pairs_abc)
  finally show ?thesis using d n u by blast
qed

text \<open>
  C7. A round returns a part of the dict it was given, so it has at most as many users;
  the loop, entered at any of its rounds, returns a part of the dict of that round; and
  \<open>deduplicate\<close> returns a part of its input, with at most as many users.
\<close>

theorem deduplicate_subset:
  "(dedup_round np cur threshold = Inr cur' \<longrightarrow>
      set cur' \<subseteq> set cur \<and> length cur' \<le> length cur)
   \<and> (dedup_loop np cur prev iteration threshold runs = Inr (last_cur, n) \<longrightarrow>
      set last_cur \<subseteq> set cur \<and> length last_cur \<le> length cur)
   \<and> (deduplicate np vectors threshold runs = Inr out \<longrightarrow>
      set out \<subseteq> set vectors \<and> fst ` set out \<subseteq> fst ` set vectors
      \<and> length out \<le> length vectors)"
proof (intro conjI impI)
  assume r: "dedup_round np cur threshold = Inr cur'"
  show "set cur' \<subseteq> set cur" by (rule dedup_round_sub(1) [OF r])
  show "length cur' \<le> length cur" by (rule dedup_round_sub(2) [OF r])
next
  assume l: "dedup_loop np cur prev iteration threshold runs = Inr (last_cur, n)"
  from dedup_loop_sub [OF l]
  show "set last_cur \<subseteq> set cur" "length last_cur \<le> length cur" by simp_all
next
  assume "deduplicate np vectors threshold runs = Inr out"
  then obtain n where l: "dedup_loop np vectors (- 1) 0 threshold runs = Inr (out, n)"
    using deduplicate_InrD by blast
  from dedup_loop_sub [OF l]
  show "set out \<subseteq> set vectors" "fst ` set out \<subseteq> fst ` set vectors"
    "length out \<le> length vectors"
    by auto
qed

theorem deduplicate_subset_witness:
  "dedup_round exact [(''a'', [1, 0]), (''b'', [0, 1]), (''c'', [2, 0])] 1
       = Inr [(''a'', [1, 0]), (''b'', [0, 1])]
   \<and> deduplicate exact [(''a'', [1, 0]), (''b'', [0, 1]), (''c'', [2, 0])] 1 5
       = Inr [(''a'', [1, 0]), (''b'', [0, 1])]
   \<and> length [(''a'', [1, 0]), (''b'', [0, 1 :: real])]
       \<le> length [(''a'', [1, 0]), (''b'', [0, 1]), (''c'', [2, 0 :: real])]
   \<and> set [(''a'', [1, 0]), (''b'', [0, 1 :: real])]
       \<subseteq> set [(''a'', [1, 0]), (''b'', [0, 1]), (''c'', [2, 0 :: real])]"
  using deduplicate_subset [where np = exact
      and cur = "[(''a'', [1, 0]), (''b'', [0, 1]), (''c'', [2, 0])]"
      and threshold = 1 and cur' = "[(''a'', [1, 0]), (''b'', [0, 1])]"
      and vectors = "[(''a'', [1, 0]), (''b'', [0, 1]), (''c'', [2, 0])]" and runs = 5
      and out = "[(''a'', [1, 0]), (''b'', [0, 1])]"]
    dedup_round_abc deduplicate_abc
  by blast

text \<open>
  C9. The loop of \<open>deduplicate\<close> ends: it is a total function, and started as \<open>deduplicate\<close>
  starts it, it either stops with the exception of its first round or returns after at most
  \<open>runs\<close> rounds, which is at most 5 rounds with the default. A round that leaves the
  number of users unchanged is the last one.
\<close>

theorem dedup_loop_terminates:
  assumes "distinct (map fst vectors)"
  shows "(case dedup_loop np vectors (- 1) 0 threshold runs of
            Inl e \<Rightarrow> 0 < runs \<and> dedup_round np vectors threshold = Inl e
          | Inr (out, n) \<Rightarrow> 0 \<le> n \<and> n \<le> max 0 runs)
       \<and> (case dedup_loop np vectors (- 1) 0 threshold deduplicate_default_runs of
            Inl e \<Rightarrow> dedup_round np vectors threshold = Inl e
          | Inr (out, n) \<Rightarrow> 0 \<le> n \<and> n \<le> 5)
       \<and> (int (length cur) \<noteq> prev \<and> iteration < runs
            \<and> dedup_round np cur threshold = Inr cur' \<and> length cur' = length cur
          \<longrightarrow> dedup_loop np cur prev iteration threshold runs = Inr (cur', iteration + 1))"
proof -
  have a: "case dedup_loop np vectors (- 1) 0 threshold r of
            Inl e \<Rightarrow> 0 < r \<and> dedup_round np vectors threshold = Inl e
          | Inr (out, n) \<Rightarrow> 0 \<le> n \<and> n \<le> max 0 r" for r
  proof (cases "dedup_loop np vectors (- 1) 0 threshold r")
    case (Inl e)
    from dedup_loop_Inl [OF Inl assms] Inl show ?thesis by simp
  next
    case (Inr p)
    obtain out n where p: "p = (out, n)" by (cases p)
    from dedup_loop_rounds [OF Inr [unfolded p]] Inr p show ?thesis by simp
  qed
  have b: "case dedup_loop np vectors (- 1) 0 threshold deduplicate_default_runs of
            Inl e \<Rightarrow> dedup_round np vectors threshold = Inl e
          | Inr (out, n) \<Rightarrow> 0 \<le> n \<and> n \<le> 5"
    using a [of deduplicate_default_runs]
    by (auto simp: deduplicate_default_runs_def split: sum.splits)
  have c: "dedup_loop np cur prev iteration threshold runs = Inr (cur', iteration + 1)"
    if "int (length cur) \<noteq> prev" "iteration < runs"
      "dedup_round np cur threshold = Inr cur'" "length cur' = length cur"
    using that by (simp add: dedup_loop_step dedup_loop_stop)
  from a [of runs] b c show ?thesis by blast
qed

theorem dedup_loop_terminates_witness:
  "distinct (map fst [(''a'', [1, 0]), (''b'', [0, 1]), (''c'', [2, 0 :: real])])
   \<and> dedup_loop exact [(''a'', [1, 0]), (''b'', [0, 1]), (''c'', [2, 0])] (- 1) 0 1 5
       = Inr ([(''a'', [1, 0]), (''b'', [0, 1])], 2)
   \<and> dedup_loop exact [(''a'', [1, 0]), (''b'', [0, 1])] 3 1 1 5
       = Inr ([(''a'', [1, 0]), (''b'', [0, 1])], 1 + 1)"
proof -
  let ?c = "[(''a'', [1, 0]), (''b'', [0, 1]), (''c'', [2, 0 :: real])]"
  let ?o = "[(''a'', [1, 0]), (''b'', [0, 1 :: real])]"
  have d: "distinct (map fst ?c)" by simp
  from dedup_loop_terminates [OF d, where np = exact and threshold = 1 and runs = 5 and cur = ?o
      and prev = 3 and iteration = 1 and cur' = ?o]
  have "int (length ?o) \<noteq> 3 \<and> (1 :: int) < 5 \<and> dedup_round exact ?o 1 = Inr ?o
        \<and> length ?o = length ?o
      \<longrightarrow> dedup_loop exact ?o 3 1 1 5 = Inr (?o, 1 + 1)"
    by blast
  then have "dedup_loop exact ?o 3 1 1 5 = Inr (?o, 1 + 1)"
    using dedup_round_ab by simp
  then show ?thesis using d dedup_loop_abc by blast
qed

section \<open>The edge list\<close>

lemma zip_concat_map:
  "zip (concat (map (\<lambda>i. map (\<lambda>j. i) (f i)) xs)) (concat (map f xs))
     = concat (map (\<lambda>i. map (\<lambda>j. (i, j)) (f i)) xs)"
  by (induction xs) (simp_all add: zip_map1 zip_same_conv_map)

lemma triu_indices_zip:
  "triu_indices_from arr 1 = (rows, cols) \<Longrightarrow> zip rows cols = upper_triangle (length arr)"
  unfolding triu_indices_from_def upper_triangle_def Let_def
  using zip_concat_map [of "\<lambda>i. [i + 1 ..< length arr]" "[0 ..< length arr]"]
  by auto

lemma set_upper_triangle: "set (upper_triangle n) = {(i, j). i < j \<and> j < n}"
proof (intro set_eqI iffI)
  fix p assume "p \<in> set (upper_triangle n)"
  then show "p \<in> {(i, j). i < j \<and> j < n}" by (auto simp: upper_triangle_def)
next
  fix p :: "nat \<times> nat" assume p: "p \<in> {(i, j). i < j \<and> j < n}"
  obtain i j where ij: "p = (i, j)" by (cases p)
  with p have "i \<in> set [0 ..< n]" "(i, j) \<in> set (map (\<lambda>j. (i, j)) [i + 1 ..< n])" by auto
  then show "p \<in> set (upper_triangle n)" unfolding ij upper_triangle_def set_concat by auto
qed

lemma sorted_upper_triangle: "sorted_wrt (<) (upper_triangle n)"
proof -
  define R :: "nat \<times> nat \<Rightarrow> nat \<times> nat \<Rightarrow> bool"
    where "R = (\<lambda>p q. fst p < fst q \<or> fst p = fst q \<and> snd p < snd q)"
  have R: "(<) = R" by (intro ext) (auto simp: R_def less_prod_def)
  have "sorted_wrt R (concat (map (\<lambda>i. map (\<lambda>j. (i, j)) [i + 1 ..< n]) [a ..< b]))" for a b
  proof (induction b)
    case 0
    show ?case by simp
  next
    case (Suc b)
    show ?case
    proof (cases "a \<le> b")
      case False
      then show ?thesis by simp
    next
      case True
      have inner: "sorted_wrt R (map (\<lambda>j. (b, j)) [b + 1 ..< n])"
        by (simp add: sorted_wrt_map R_def sorted_wrt_iff_nth_less)
      have cross: "R p q" if "p \<in> set (concat (map (\<lambda>i. map (\<lambda>j. (i, j)) [i + 1 ..< n]) [a ..< b]))"
        "q \<in> set (map (\<lambda>j. (b, j)) [b + 1 ..< n])" for p q
        using that by (auto simp: R_def)
      have "[a ..< Suc b] = [a ..< b] @ [b]" using True by simp
      then show ?thesis using Suc inner cross
        by (simp add: sorted_wrt_append)
    qed
  qed
  then show ?thesis unfolding upper_triangle_def R .
qed

lemma deduplicate_default_wf:
  assumes d: "distinct (map fst v)"
    and r: "deduplicate np v t deduplicate_default_runs = Inr vectors"
  shows "vectors \<noteq> []" "uniform (map snd vectors)" "distinct (map fst vectors)"
proof -
  from deduplicate_InrD [OF r] obtain n
    where l: "dedup_loop np v (- 1) 0 t deduplicate_default_runs = Inr (vectors, n)" ..
  from dedup_loop_result [OF l d]
  obtain c where c: "distinct (map fst c)" "dedup_round np c t = Inr vectors"
    by (auto simp: deduplicate_default_runs_def)
  show "vectors \<noteq> []" using dedup_round_keeps_first [OF c] by simp
  show "uniform (map snd vectors)" by (rule dedup_round_sub(4) [OF c(2)])
  show "distinct (map fst vectors)" by (rule dedup_round_sub(3) [OF c(2) c(1)])
qed

subsection \<open>Writing the file\<close>

lemma with_file_simps [simp]:
  "contents (with_file fs name text) = (contents fs)(name \<mapsto> text)"
  "open_fails (with_file fs name text) = open_fails fs"
  "write_fails (with_file fs name text) = write_fails fs"
  "with_file (with_file fs name text) name text' = with_file fs name text'"
  by (simp_all add: with_file_def)

lemma write_edges_accepted:
  assumes "list_all (\<lambda>l. write_fails fs name l = None)
             (map (\<lambda>(u1, u2). u1 @ '' '' @ u2 @ [CHR 0x0A]) edges)"
    and "contents fs name = Some old"
  shows "write_edges fs name edges
           = (with_file fs name
                (old @ concat (map (\<lambda>(u1, u2). u1 @ '' '' @ u2 @ [CHR 0x0A]) edges)), None)"
  using assms
proof (induction edges arbitrary: fs old)
  case Nil
  then have "contents fs = (contents fs)(name \<mapsto> old)" by (auto simp: fun_upd_idem)
  then have "with_file fs name old = fs" by (cases fs) (simp add: with_file_def)
  then show ?case by simp
next
  case (Cons e edges)
  obtain u1 u2 where e: "e = (u1, u2)" by (cases e)
  let ?l = "u1 @ '' '' @ u2 @ [CHR 0x0A]"
  let ?fs = "with_file fs name (old @ ?l)"
  have w: "file_write fs name ?l = Inr ?fs"
    using Cons.prems by (simp add: file_write_def e)
  have "write_edges ?fs name edges
          = (with_file ?fs name
               ((old @ ?l) @ concat (map (\<lambda>(u1, u2). u1 @ '' '' @ u2 @ [CHR 0x0A]) edges)), None)"
    by (rule Cons.IH) (use Cons.prems in simp_all)
  then show ?case using w by (simp add: e)
qed

lemma write_edges_refused:
  assumes "\<not> list_all (\<lambda>l. write_fails fs name l = None)
             (map (\<lambda>(u1, u2). u1 @ '' '' @ u2 @ [CHR 0x0A]) edges)"
  shows "\<exists>fs' e. write_edges fs name edges = (fs', Some e)"
  using assms
proof (induction edges arbitrary: fs)
  case Nil
  then show ?case by simp
next
  case (Cons e edges)
  obtain u1 u2 where e: "e = (u1, u2)" by (cases e)
  let ?l = "u1 @ '' '' @ u2 @ [CHR 0x0A]"
  show ?case
  proof (cases "write_fails fs name ?l")
    case (Some err)
    then show ?thesis by (simp add: e file_write_def)
  next
    case None
    let ?fs = "with_file fs name ((case contents fs name of None \<Rightarrow> [] | Some old \<Rightarrow> old) @ ?l)"
    have w: "file_write fs name ?l = Inr ?fs" using None by (simp add: file_write_def)
    have "\<not> list_all (\<lambda>l. write_fails ?fs name l = None)
             (map (\<lambda>(u1, u2). u1 @ '' '' @ u2 @ [CHR 0x0A]) edges)"
      using Cons.prems None by (simp add: e)
    from Cons.IH [OF this] show ?thesis using w by (simp add: e)
  qed
qed

lemma open_w_cases:
  "open_w fs name = Inl e \<longleftrightarrow> (name = [] \<and> e = FileNotFoundError) \<or> (name \<noteq> [] \<and> open_fails fs name = Some e)"
  "open_w fs name = Inr fs1 \<longleftrightarrow> name \<noteq> [] \<and> open_fails fs name = None \<and> fs1 = with_file fs name []"
  by (auto simp: open_w_def split: option.splits)

subsection \<open>The function\<close>

lemma edge_lines_eq:
  "map (\<lambda>(u1, u2). u1 @ '' '' @ u2 @ [CHR 0x0A])
     (map (\<lambda>(i, j). (map fst vectors ! i, map fst vectors ! j)) (edge_indices np vectors threshold))
   = edge_lines vectors (edge_indices np vectors threshold)"
  unfolding edge_lines_def map_map
  by (rule map_cong) (auto simp: edge_indices_def set_upper_triangle)

lemma generate_eq:
  assumes d: "distinct (map fst user_vectors_2)"
    and r: "deduplicate np user_vectors_2 1 deduplicate_default_runs = Inr vectors"
  shows "generate_similarity_network_vectorized np fs user_vectors_2 threshold output_file
     = (case open_w fs output_file of
          Inl e \<Rightarrow> (fs, Inl e)
        | Inr fs1 \<Rightarrow>
            (case write_edges fs1 output_file
                    (map (\<lambda>(i, j). (map fst vectors ! i, map fst vectors ! j))
                       (edge_indices np vectors threshold)) of
               (fs2, Some e) \<Rightarrow> (fs2, Inl e)
             | (fs2, None) \<Rightarrow> (fs2, Inr output_file)))"
proof -
  note wf = deduplicate_default_wf [OF d r]
  let ?vecs = "map snd vectors"
  let ?M = "similarities np ?vecs"
  obtain rows cols where rc: "triu_indices_from ?M 1 = (rows, cols)"
    by (cases "triu_indices_from ?M 1")
  have z: "zip rows cols = upper_triangle (length vectors)"
    using triu_indices_zip [OF rc] by simp
  have M: "dot_T np (divide_rows np ?vecs (replace_zero (map (linalg_norm np) ?vecs))) = ?M"
    by (simp add: similarities_def normalize_rows_def)
  have rc': "triu_indices_from ?M (Suc 0) = (rows, cols)" using rc by simp
  show ?thesis
    using wf(1,2) r
    by (cases "open_w fs output_file")
      (simp_all add: generate_similarity_network_vectorized_def np_array_def uniform_def
        linalg_norm_axis1_def Let_def M rc' z edge_indices_def del: map_map)
qed

lemma generate_accepted:
  assumes d: "distinct (map fst user_vectors_2)"
    and r: "deduplicate np user_vectors_2 1 deduplicate_default_runs = Inr vectors"
    and a: "accepts fs output_file (edge_lines vectors (edge_indices np vectors threshold))"
  shows "generate_similarity_network_vectorized np fs user_vectors_2 threshold output_file
     = (with_file fs output_file (concat (edge_lines vectors (edge_indices np vectors threshold))),
        Inr output_file)"
proof -
  let ?edges = "map (\<lambda>(i, j). (map fst vectors ! i, map fst vectors ! j))
                  (edge_indices np vectors threshold)"
  let ?fs1 = "with_file fs output_file []"
  from a have o: "open_w fs output_file = Inr ?fs1"
    by (simp add: accepts_def open_w_cases(2))
  have L: "map (\<lambda>(u1, u2). u1 @ '' '' @ u2 @ [CHR 0x0A]) ?edges
             = edge_lines vectors (edge_indices np vectors threshold)"
    by (rule edge_lines_eq)
  have "write_edges ?fs1 output_file ?edges
      = (with_file ?fs1 output_file
           ([] @ concat (map (\<lambda>(u1, u2). u1 @ '' '' @ u2 @ [CHR 0x0A]) ?edges)), None)"
  proof (rule write_edges_accepted)
    show "list_all (\<lambda>l. write_fails ?fs1 output_file l = None)
            (map (\<lambda>(u1, u2). u1 @ '' '' @ u2 @ [CHR 0x0A]) ?edges)"
      unfolding L using a by (simp add: accepts_def)
    show "contents ?fs1 output_file = Some []" by simp
  qed
  then have w: "write_edges ?fs1 output_file ?edges
      = (with_file fs output_file
           (concat (edge_lines vectors (edge_indices np vectors threshold))), None)"
    unfolding L by simp
  show ?thesis unfolding generate_eq [OF d r] o using w by simp
qed

lemma generate_open_fails:
  assumes d: "distinct (map fst user_vectors_2)"
    and r: "deduplicate np user_vectors_2 1 deduplicate_default_runs = Inr vectors"
    and o: "open_w fs output_file = Inl e"
  shows "generate_similarity_network_vectorized np fs user_vectors_2 threshold output_file
     = (fs, Inl e)"
  unfolding generate_eq [OF d r] o by simp

lemma generate_write_fails:
  assumes d: "distinct (map fst user_vectors_2)"
    and r: "deduplicate np user_vectors_2 1 deduplicate_default_runs = Inr vectors"
    and o: "open_w fs output_file = Inr fs1"
    and w: "\<not> list_all (\<lambda>l. write_fails fs output_file l = None)
              (edge_lines vectors (edge_indices np vectors threshold))"
  shows "\<exists>fs' e. generate_similarity_network_vectorized np fs user_vectors_2 threshold output_file
     = (fs', Inl e)"
proof -
  let ?edges = "map (\<lambda>(i, j). (map fst vectors ! i, map fst vectors ! j))
                  (edge_indices np vectors threshold)"
  have f: "write_fails fs1 = write_fails fs" using o by (auto simp: open_w_cases(2))
  have L: "map (\<lambda>(u1, u2). u1 @ '' '' @ u2 @ [CHR 0x0A]) ?edges
             = edge_lines vectors (edge_indices np vectors threshold)"
    by (rule edge_lines_eq)
  have "\<exists>fs' e. write_edges fs1 output_file ?edges = (fs', Some e)"
    by (rule write_edges_refused) (unfold L f, rule w)
  then show ?thesis unfolding generate_eq [OF d r] o by auto
qed

lemma edge_indices_props:
  assumes d: "distinct (map fst vectors)"
  shows "set (edge_indices np vectors threshold)
           = {(i, j). i < j \<and> j < length vectors
                \<and> similarities np (map snd vectors) ! i ! j \<ge> threshold}"
    and "sorted_wrt (<) (edge_indices np vectors threshold)"
    and "\<forall>(i, j) \<in> set (edge_indices np vectors threshold). fst (vectors ! i) \<noteq> fst (vectors ! j)"
proof -
  show s: "set (edge_indices np vectors threshold)
           = {(i, j). i < j \<and> j < length vectors
                \<and> similarities np (map snd vectors) ! i ! j \<ge> threshold}"
    by (auto simp: edge_indices_def set_upper_triangle)
  show "sorted_wrt (<) (edge_indices np vectors threshold)"
    unfolding edge_indices_def by (rule sorted_wrt_filter) (rule sorted_upper_triangle)
  show "\<forall>(i, j) \<in> set (edge_indices np vectors threshold). fst (vectors ! i) \<noteq> fst (vectors ! j)"
  proof (clarify)
    fix i j assume "(i, j) \<in> set (edge_indices np vectors threshold)"
      and e: "fst (vectors ! i) = fst (vectors ! j)"
    then have ij: "i < j" "j < length vectors" unfolding s by auto
    then have i: "i < length vectors" by simp
    have "map fst vectors ! i = map fst vectors ! j" using e ij i by simp
    then have "i = j" using nth_eq_iff_index_eq [OF d, of i j] ij i by simp
    with ij show False by simp
  qed
qed

section \<open>Vectors of norm 0\<close>

lemma l2norm_zero_iff: "l2norm v = 0 \<longleftrightarrow> (\<forall>a \<in> set v. a = 0)"
proof -
  have nn: "0 \<le> sum_list (map (\<lambda>a. a * a) w)" for w :: "real list"
    by (induction w) simp_all
  have "sum_list (map (\<lambda>a. a * a) v) = 0 \<longleftrightarrow> (\<forall>a \<in> set v. a = 0)"
  proof (induction v)
    case Nil
    show ?case by simp
  next
    case (Cons x xs)
    have "x * x + sum_list (map (\<lambda>a. a * a) xs) = 0
        \<longleftrightarrow> x * x = 0 \<and> sum_list (map (\<lambda>a. a * a) xs) = 0"
      using nn [of xs] by (intro add_nonneg_eq_0_iff) simp_all
    with Cons show ?case by simp
  qed
  then show ?thesis by (simp add: l2norm_def)
qed

lemma dot_zero: "(\<forall>a \<in> set v. a = 0) \<Longrightarrow> dot v w = 0 \<and> dot w v = 0"
  unfolding dot_def
  by (induction v arbitrary: w) (simp, case_tac w, simp_all)

lemma unit_vector_zero:
  "l2norm v = 0 \<Longrightarrow> unit_vector v = v \<and> unit_vector v = replicate (length v) 0"
proof -
  assume z: "l2norm v = 0"
  then have all: "\<forall>a \<in> set v. a = 0" by (simp add: l2norm_zero_iff)
  have "unit_vector v = v" using z by (simp add: unit_vector_def)
  moreover have "v = replicate (length v) 0"
    using all by (simp add: replicate_length_same)
  ultimately show ?thesis by simp
qed

lemma cosine_zero: "l2norm v = 0 \<Longrightarrow> cosine v w = 0 \<and> cosine w v = 0"
proof -
  assume z: "l2norm v = 0"
  then have "\<forall>a \<in> set (unit_vector v). a = 0"
    using unit_vector_zero [OF z] by (simp add: l2norm_zero_iff)
  then show ?thesis unfolding cosine_def by (rule dot_zero)
qed

lemma replace_zero_nonzero: "0 \<notin> set (replace_zero norms)"
  by (auto simp: replace_zero_def)

lemma normalize_rows_nth:
  "i < length vecs \<Longrightarrow>
     normalize_rows np vecs ! i
       = map (\<lambda>a. true_divide np a (if linalg_norm np (vecs ! i) = 0 then 1
                                     else linalg_norm np (vecs ! i)))
           (vecs ! i)"
  by (simp add: normalize_rows_eq)

subsection \<open>The zero vector in float64 arithmetic\<close>

lemma float64_sum_zeros: "float64_sum (replicate n 0) = 0"
proof -
  have "foldl (\<lambda>acc b. float64 (acc + b)) 0 (replicate n 0) = 0" for n
    by (induction n) simp_all
  then show ?thesis by (cases n) simp_all
qed

lemma float64_norm_zeros: "float64_norm (replicate n 0) = 0"
  by (simp add: float64_norm_def float64_sum_zeros)

lemma float64_dot_zeros:
  "float64_dot (replicate n 0) w = 0" "float64_dot w (replicate n 0) = 0"
proof -
  have a: "map2 (\<lambda>p q. float64 (p * q)) (replicate n 0) w = replicate (min n (length w)) 0"
    by (rule nth_equalityI) simp_all
  have b: "map2 (\<lambda>p q. float64 (p * q)) w (replicate n 0) = replicate (min (length w) n) 0"
    by (rule nth_equalityI) simp_all
  show "float64_dot (replicate n 0) w = 0" unfolding float64_dot_def a by (rule float64_sum_zeros)
  show "float64_dot w (replicate n 0) = 0" unfolding float64_dot_def b by (rule float64_sum_zeros)
qed

lemma float64_zero_row:
  assumes i: "i < length vecs" and z: "\<forall>a \<in> set (vecs ! i). a = 0"
  shows "linalg_norm float64_numpy (vecs ! i) = 0"
    and "normalize_rows float64_numpy vecs ! i = replicate (length (vecs ! i)) 0"
    and "j < length vecs \<Longrightarrow> similarities float64_numpy vecs ! i ! j = 0"
    and "j < length vecs \<Longrightarrow> similarities float64_numpy vecs ! j ! i = 0"
proof -
  from z have v: "vecs ! i = replicate (length (vecs ! i)) 0"
    by (simp add: replicate_length_same)
  show n: "linalg_norm float64_numpy (vecs ! i) = 0"
    by (subst v) (simp add: float64_numpy_simps float64_norm_zeros)
  have "normalize_rows float64_numpy vecs ! i = map (\<lambda>a. float64_divide a 1) (vecs ! i)"
    using i n by (simp add: normalize_rows_nth float64_numpy_simps)
  also have "\<dots> = map (\<lambda>a. float64_divide a 1) (replicate (length (vecs ! i)) 0)"
    using v by simp
  also have "\<dots> = replicate (length (vecs ! i)) 0"
    by (simp add: float64_divide_def)
  finally show r: "normalize_rows float64_numpy vecs ! i = replicate (length (vecs ! i)) 0" .
  show "similarities float64_numpy vecs ! i ! j = 0" if "j < length vecs"
    using i that by (simp add: similarities_nth float64_numpy_simps r float64_dot_zeros)
  show "similarities float64_numpy vecs ! j ! i = 0" if "j < length vecs"
    using i that by (simp add: similarities_nth float64_numpy_simps r float64_dot_zeros)
qed

subsection \<open>A dict with the zero vector\<close>

lemma l2norm_0_0: "l2norm [0, 0] = 0"
  by (simp add: l2norm_def)

lemma cosine_0_0:
  "cosine [0, 0] [0, 0] = 0" "cosine [0, 0] [1, 0] = 0" "cosine [1, 0] [0, 0] = 0"
  using cosine_zero [OF l2norm_0_0] by simp_all

lemma dedup_round_za:
  "dedup_round exact [(''z'', [0, 0]), (''a'', [1, 0])] 1 = Inr [(''z'', [0, 0]), (''a'', [1, 0])]"
  by (simp add: dedup_round_eq similarities_exact uniform_def scan_pairs_def scan_row_def
      cosine_matrix_def cosine_simps cosine_0_0 upt_rec [of 0] upt_rec [of 1] upt_rec [of 2])

lemma deduplicate_za:
  "deduplicate exact [(''z'', [0, 0]), (''a'', [1, 0])] 1 deduplicate_default_runs
     = Inr [(''z'', [0, 0]), (''a'', [1, 0])]"
  by (simp add: deduplicate_def deduplicate_default_runs_def dedup_loop_step dedup_loop_stop
      dedup_round_za)

lemma upper_triangle_simps:
  "upper_triangle (Suc (Suc 0)) = [(0, 1)]"
  "upper_triangle (Suc (Suc (Suc 0))) = [(0, 1), (0, 2), (1, 2)]"
  by code_simp+

lemma edge_indices_za:
  "edge_indices exact [(''z'', [0, 0]), (''a'', [1, 0])] (1 / 2) = []"
  by (simp add: edge_indices_def similarities_exact cosine_matrix_def upper_triangle_simps
      cosine_0_0)

text \<open>
  C8. Both \<open>dedup_round\<close> and \<open>generate_similarity_network_vectorized\<close> divide the rows by
  the norms after the substitution, none of which is 0, and work on the similarity matrix
  of the rows so divided. A row whose norm is 0 is divided by 1. In exact arithmetic such
  a row is the zero vector, it stays the zero vector, and its similarity with every row,
  itself included, is 0; in float64 arithmetic the same holds of a row of zeros.
\<close>

theorem zero_norm_substituted:
  assumes "distinct (map fst cur)" and "cur \<noteq> []" and "uniform (map snd cur)"
  shows "0 \<notin> set (replace_zero (map (linalg_norm np) (map snd cur)))
       \<and> similarities np (map snd cur)
           = dot_T np (divide_rows np (map snd cur)
                         (replace_zero (map (linalg_norm np) (map snd cur))))
       \<and> dedup_round np cur threshold
           = Inr (filter (\<lambda>(user, vector).
                    user \<notin> scan_pairs (map fst cur) (similarities np (map snd cur)) threshold)
                    cur)
       \<and> (deduplicate np cur 1 deduplicate_default_runs = Inr vectors
            \<and> accepts fs output_file (edge_lines vectors (edge_indices np vectors edge_threshold))
          \<longrightarrow> generate_similarity_network_vectorized np fs cur edge_threshold output_file
                = (with_file fs output_file
                     (concat (edge_lines vectors (edge_indices np vectors edge_threshold))),
                   Inr output_file)
              \<and> edge_indices np vectors edge_threshold
                = filter (\<lambda>(i, j).
                      dot_T np (divide_rows np (map snd vectors)
                                  (replace_zero (map (linalg_norm np) (map snd vectors))))
                        ! i ! j \<ge> edge_threshold)
                    (upper_triangle (length vectors)))
       \<and> (\<forall>i < length cur. linalg_norm np (snd (cur ! i)) = 0 \<longrightarrow>
             normalize_rows np (map snd cur) ! i = map (\<lambda>a. true_divide np a 1) (snd (cur ! i)))
       \<and> (\<forall>i < length cur. l2norm (snd (cur ! i)) = 0 \<longrightarrow>
             normalize_rows exact (map snd cur) ! i = replicate (length (snd (cur ! i))) 0
             \<and> (\<forall>j < length cur.
                   similarities exact (map snd cur) ! i ! j = 0
                   \<and> similarities exact (map snd cur) ! j ! i = 0))
       \<and> (\<forall>i < length cur. (\<forall>a \<in> set (snd (cur ! i)). a = 0) \<longrightarrow>
             linalg_norm float64_numpy (snd (cur ! i)) = 0
             \<and> normalize_rows float64_numpy (map snd cur) ! i
                 = replicate (length (snd (cur ! i))) 0
             \<and> (\<forall>j < length cur.
                   similarities float64_numpy (map snd cur) ! i ! j = 0
                   \<and> similarities float64_numpy (map snd cur) ! j ! i = 0))"
proof (intro conjI allI impI)
  show "0 \<notin> set (replace_zero (map (linalg_norm np) (map snd cur)))"
    by (rule replace_zero_nonzero)
  show "similarities np (map snd cur)
           = dot_T np (divide_rows np (map snd cur)
                         (replace_zero (map (linalg_norm np) (map snd cur))))"
    by (simp only: similarities_def normalize_rows_def)
  show "dedup_round np cur threshold
           = Inr (filter (\<lambda>(user, vector).
                    user \<notin> scan_pairs (map fst cur) (similarities np (map snd cur)) threshold)
                    cur)"
    using assms(2,3) by (simp add: dedup_round_eq)
next
  assume a: "deduplicate np cur 1 deduplicate_default_runs = Inr vectors
            \<and> accepts fs output_file (edge_lines vectors (edge_indices np vectors edge_threshold))"
  show "generate_similarity_network_vectorized np fs cur edge_threshold output_file
                = (with_file fs output_file
                     (concat (edge_lines vectors (edge_indices np vectors edge_threshold))),
                   Inr output_file)"
    using generate_accepted [OF assms(1)] a by blast
  show "edge_indices np vectors edge_threshold
                = filter (\<lambda>(i, j).
                      dot_T np (divide_rows np (map snd vectors)
                                  (replace_zero (map (linalg_norm np) (map snd vectors))))
                        ! i ! j \<ge> edge_threshold)
                    (upper_triangle (length vectors))"
    by (simp only: edge_indices_def similarities_def normalize_rows_def)
next
  fix i assume i: "i < length cur" and z: "linalg_norm np (snd (cur ! i)) = 0"
  show "normalize_rows np (map snd cur) ! i = map (\<lambda>a. true_divide np a 1) (snd (cur ! i))"
    using i z by (simp add: normalize_rows_nth)
next
  fix i assume i: "i < length cur" and z: "l2norm (snd (cur ! i)) = 0"
  show "normalize_rows exact (map snd cur) ! i = replicate (length (snd (cur ! i))) 0"
    using unit_vector_zero [OF z, THEN conjunct2] i by (simp add: normalize_rows_exact)
  fix j assume j: "j < length cur"
  show "similarities exact (map snd cur) ! i ! j = 0"
    using cosine_zero [OF z] i j by (simp add: similarities_exact_nth)
  show "similarities exact (map snd cur) ! j ! i = 0"
    using cosine_zero [OF z] i j by (simp add: similarities_exact_nth)
next
  fix i assume i: "i < length cur" and z: "\<forall>a \<in> set (snd (cur ! i)). a = 0"
  have i': "i < length (map snd cur)" using i by simp
  have z': "\<forall>a \<in> set (map snd cur ! i). a = 0" using i z by simp
  note f = float64_zero_row [OF i' z']
  show "linalg_norm float64_numpy (snd (cur ! i)) = 0" using f(1) i by simp
  show "normalize_rows float64_numpy (map snd cur) ! i = replicate (length (snd (cur ! i))) 0"
    using f(2) i by simp
  fix j assume j: "j < length cur"
  show "similarities float64_numpy (map snd cur) ! i ! j = 0" using f(3) j by simp
  show "similarities float64_numpy (map snd cur) ! j ! i = 0" using f(4) j by simp
qed

theorem zero_norm_substituted_witness:
  "distinct (map fst [(''z'', [0, 0]), (''a'', [1, 0 :: real])])
   \<and> [(''z'', [0, 0]), (''a'', [1, 0 :: real])] \<noteq> []
   \<and> uniform (map snd [(''z'', [0, 0]), (''a'', [1, 0 :: real])])
   \<and> deduplicate exact [(''z'', [0, 0]), (''a'', [1, 0])] 1 deduplicate_default_runs
       = Inr [(''z'', [0, 0]), (''a'', [1, 0])]
   \<and> accepts no_files ''out.csv''
       (edge_lines [(''z'', [0, 0]), (''a'', [1, 0])]
          (edge_indices exact [(''z'', [0, 0]), (''a'', [1, 0])] (1 / 2)))
   \<and> dedup_round exact [(''z'', [0, 0]), (''a'', [1, 0])] 1
       = Inr [(''z'', [0, 0]), (''a'', [1, 0])]
   \<and> generate_similarity_network_vectorized exact no_files [(''z'', [0, 0]), (''a'', [1, 0])]
         (1 / 2) ''out.csv''
       = (with_file no_files ''out.csv'' [], Inr ''out.csv'')
   \<and> l2norm [0, 0] = 0
   \<and> normalize_rows exact [[0, 0], [1, 0]] ! 0 = [0, 0]
   \<and> similarities exact [[0, 0], [1, 0]] ! 0 ! 1 = 0
   \<and> similarities exact [[0, 0], [1, 0]] ! 0 ! 0 = 0
   \<and> linalg_norm float64_numpy [0, 0] = 0
   \<and> similarities float64_numpy [[0, 0], [1, 0]] ! 1 ! 0 = 0"
proof -
  let ?c = "[(''z'', [0, 0]), (''a'', [1, 0 :: real])]"
  have d: "distinct (map fst ?c)" by simp
  have n: "?c \<noteq> []" by simp
  have u: "uniform (map snd ?c)" by (simp add: uniform_def)
  have a: "accepts no_files ''out.csv'' (edge_lines ?c (edge_indices exact ?c (1 / 2)))"
    by (simp add: edge_indices_za edge_lines_def accepts_def no_files_def)
  note t = zero_norm_substituted [OF d n u, where np = exact and threshold = 1
      and vectors = ?c and fs = no_files and output_file = "''out.csv''"
      and edge_threshold = "1 / 2"]
  note t3 = t [THEN conjunct2, THEN conjunct2, THEN conjunct1]
  note t4 = t [THEN conjunct2, THEN conjunct2, THEN conjunct2, THEN conjunct1]
  note t6 = t [THEN conjunct2, THEN conjunct2, THEN conjunct2, THEN conjunct2, THEN conjunct2,
      THEN conjunct1]
  note t7 = t [THEN conjunct2, THEN conjunct2, THEN conjunct2, THEN conjunct2, THEN conjunct2,
      THEN conjunct2]
  have r: "dedup_round exact ?c 1 = Inr ?c"
    using t3 dedup_round_za by simp
  from t4 deduplicate_za a
  have "generate_similarity_network_vectorized exact no_files ?c (1 / 2) ''out.csv''
       = (with_file no_files ''out.csv''
            (concat (edge_lines ?c (edge_indices exact ?c (1 / 2)))), Inr ''out.csv'')"
    by blast
  then have g: "generate_similarity_network_vectorized exact no_files ?c (1 / 2) ''out.csv''
       = (with_file no_files ''out.csv'' [], Inr ''out.csv'')"
    by (simp add: edge_indices_za edge_lines_def)
  have i0: "0 < length ?c" and i1: "1 < length ?c" by simp_all
  from t6 i0 have "l2norm (snd (?c ! 0)) = 0 \<longrightarrow>
             normalize_rows exact (map snd ?c) ! 0 = replicate (length (snd (?c ! 0))) 0
             \<and> (\<forall>j < length ?c.
                   similarities exact (map snd ?c) ! 0 ! j = 0
                   \<and> similarities exact (map snd ?c) ! j ! 0 = 0)"
    by blast
  then have e0: "normalize_rows exact (map snd ?c) ! 0 = replicate (length (snd (?c ! 0))) 0
             \<and> (\<forall>j < length ?c.
                   similarities exact (map snd ?c) ! 0 ! j = 0
                   \<and> similarities exact (map snd ?c) ! j ! 0 = 0)"
    by (simp add: l2norm_0_0)
  from e0 i0 i1 have "normalize_rows exact (map snd ?c) ! 0 = replicate (length (snd (?c ! 0))) 0
      \<and> similarities exact (map snd ?c) ! 0 ! 1 = 0
      \<and> similarities exact (map snd ?c) ! 0 ! 0 = 0"
    by blast
  then have e: "normalize_rows exact [[0, 0], [1, 0]] ! 0 = [0, 0]
      \<and> similarities exact [[0, 0], [1, 0]] ! 0 ! 1 = 0
      \<and> similarities exact [[0, 0], [1, 0]] ! 0 ! 0 = 0"
    by (simp add: numeral_2_eq_2)
  from t7 i0 have "(\<forall>a \<in> set (snd (?c ! 0)). a = 0) \<longrightarrow>
             linalg_norm float64_numpy (snd (?c ! 0)) = 0
             \<and> normalize_rows float64_numpy (map snd ?c) ! 0
                 = replicate (length (snd (?c ! 0))) 0
             \<and> (\<forall>j < length ?c.
                   similarities float64_numpy (map snd ?c) ! 0 ! j = 0
                   \<and> similarities float64_numpy (map snd ?c) ! j ! 0 = 0)"
    by blast
  then have f0: "linalg_norm float64_numpy (snd (?c ! 0)) = 0
             \<and> normalize_rows float64_numpy (map snd ?c) ! 0
                 = replicate (length (snd (?c ! 0))) 0
             \<and> (\<forall>j < length ?c.
                   similarities float64_numpy (map snd ?c) ! 0 ! j = 0
                   \<and> similarities float64_numpy (map snd ?c) ! j ! 0 = 0)"
    by simp
  from f0 i1 have "linalg_norm float64_numpy (snd (?c ! 0)) = 0
      \<and> similarities float64_numpy (map snd ?c) ! 1 ! 0 = 0"
    by blast
  then have f: "linalg_norm float64_numpy [0, 0] = 0
      \<and> similarities float64_numpy [[0, 0], [1, 0]] ! 1 ! 0 = 0"
    by simp
  from d n u deduplicate_za a r g l2norm_0_0 e f show ?thesis by blast
qed

section \<open>The edge list: the claims\<close>

lemma l2norm_3_4: "l2norm [3 / 7, 4 / 7] = 5 / 7"
  unfolding l2norm_def by (rule real_sqrt_unique) (simp_all add: power2_eq_square)

lemma cosine_3_4:
  "cosine [1, 0] [3 / 7, 4 / 7] = 3 / 5" "cosine [3 / 7, 4 / 7] [0, 1] = 4 / 5"
  "cosine [3 / 7, 4 / 7] [1, 0] = 3 / 5" "cosine [0, 1] [3 / 7, 4 / 7] = 4 / 5"
  "cosine [3 / 7, 4 / 7] [3 / 7, 4 / 7] = 1"
  by (simp_all add: cosine_def unit_vector_def l2norm_simps l2norm_3_4 dot_def)

lemma dedup_round_ab34:
  "dedup_round exact [(''a'', [1, 0]), (''b'', [3 / 7, 4 / 7])] 1
     = Inr [(''a'', [1, 0]), (''b'', [3 / 7, 4 / 7])]"
  by (simp add: dedup_round_eq similarities_exact uniform_def scan_pairs_def scan_row_def
      cosine_matrix_def cosine_simps cosine_3_4 upt_rec [of 0] upt_rec [of 1] upt_rec [of 2])

lemma deduplicate_ab34:
  "deduplicate exact [(''a'', [1, 0]), (''b'', [3 / 7, 4 / 7])] 1 deduplicate_default_runs
     = Inr [(''a'', [1, 0]), (''b'', [3 / 7, 4 / 7])]"
  by (simp add: deduplicate_def deduplicate_default_runs_def dedup_loop_step dedup_loop_stop
      dedup_round_ab34)

lemma dedup_round_abc34:
  "dedup_round exact [(''a'', [1, 0]), (''b'', [3 / 7, 4 / 7]), (''c'', [0, 1])] 1
     = Inr [(''a'', [1, 0]), (''b'', [3 / 7, 4 / 7]), (''c'', [0, 1])]"
  by (simp add: dedup_round_eq similarities_exact uniform_def scan_pairs_def scan_row_def
      cosine_matrix_def cosine_simps cosine_3_4
      upt_rec [of 0] upt_rec [of 1] upt_rec [of 2] upt_rec [of 3])

lemma deduplicate_abc34:
  "deduplicate exact [(''a'', [1, 0]), (''b'', [3 / 7, 4 / 7]), (''c'', [0, 1])] 1
       deduplicate_default_runs
     = Inr [(''a'', [1, 0]), (''b'', [3 / 7, 4 / 7]), (''c'', [0, 1])]"
  by (simp add: deduplicate_def deduplicate_default_runs_def dedup_loop_step dedup_loop_stop
      dedup_round_abc34)

lemma edge_indices_abc34:
  "edge_indices exact [(''a'', [1, 0]), (''b'', [3 / 7, 4 / 7]), (''c'', [0, 1])] (1 / 2)
     = [(0, 1), (1, 2)]"
  by (simp add: edge_indices_def similarities_exact cosine_matrix_def upper_triangle_simps
      cosine_simps cosine_3_4)

lemma edge_indices_ab34:
  "edge_indices exact [(''a'', [1, 0]), (''b'', [3 / 7, 4 / 7])] (1 / 10) = [(0, 1)]"
  "edge_indices exact [(''a'', [1, 0]), (''b'', [3 / 7, 4 / 7])] (95 / 100) = []"
  "edge_indices exact [(''a'', [1, 0]), (''b'', [3 / 7, 4 / 7])] (19 / 20) = []"
  by (simp_all add: edge_indices_def similarities_exact cosine_matrix_def upper_triangle_simps
      cosine_3_4)

subsection \<open>Two users in float64 arithmetic\<close>

lemma similarities_float64_ab:
  "similarities float64_numpy [[1, 0], [1 / 4, 3 / 4]]
     = [[1, 5696652996790543 / 2 ^ 54], [5696652996790543 / 2 ^ 54, 9007199254740991 / 2 ^ 53]]"
proof -
  have n0: "(7120816245988179 / 2 ^ 53 :: real) = 0 \<longleftrightarrow> False" "(1 :: real) = 0 \<longleftrightarrow> False"
    by simp_all
  show ?thesis
    by (simp only: similarities_def normalize_rows_2 float64_numpy_simps
        float64_example_1_3 float64_example_1_0 n0 if_False list.map)
qed

lemma dedup_round_float64_ab:
  "dedup_round float64_numpy [(''a'', [1, 0]), (''b'', [1 / 4, 3 / 4])] 1
     = Inr [(''a'', [1, 0]), (''b'', [1 / 4, 3 / 4])]"
proof -
  have "scan_pairs [''a'', ''b'']
          [[1, 5696652996790543 / 2 ^ 54], [5696652996790543 / 2 ^ 54, 9007199254740991 / 2 ^ 53]]
          1 = {}"
    by (simp add: scan_pairs_def scan_row_def upt_rec [of 0] upt_rec [of 1] upt_rec [of 2])
  then have "scan_pairs [''a'', ''b'']
          (similarities float64_numpy [[1, 0], [1 / 4, 3 / 4]]) 1 = {}"
    by (simp only: similarities_float64_ab)
  then show ?thesis
    unfolding dedup_round_eq by (simp add: uniform_def)
qed

lemma deduplicate_float64_ab:
  "deduplicate float64_numpy [(''a'', [1, 0]), (''b'', [1 / 4, 3 / 4])] 1
       deduplicate_default_runs
     = Inr [(''a'', [1, 0]), (''b'', [1 / 4, 3 / 4])]"
  by (simp add: deduplicate_def deduplicate_default_runs_def dedup_loop_step dedup_loop_stop
      dedup_round_float64_ab)

lemma edge_indices_float64_ab:
  "edge_indices float64_numpy [(''a'', [1, 0]), (''b'', [1 / 4, 3 / 4])] (1 / 10) = [(0, 1)]"
  "edge_indices float64_numpy [(''a'', [1, 0]), (''b'', [1 / 4, 3 / 4])] (95 / 100) = []"
proof -
  have s: "similarities float64_numpy [[1, 0], [1 / 4, 3 / 4]] ! 0 ! Suc 0
      = 5696652996790543 / 2 ^ 54"
    by (simp only: similarities_float64_ab) simp
  show "edge_indices float64_numpy [(''a'', [1, 0]), (''b'', [1 / 4, 3 / 4])] (1 / 10) = [(0, 1)]"
    unfolding edge_indices_def by (simp add: upper_triangle_simps s)
  show "edge_indices float64_numpy [(''a'', [1, 0]), (''b'', [1 / 4, 3 / 4])] (95 / 100) = []"
    unfolding edge_indices_def by (simp add: upper_triangle_simps s)
qed


subsection \<open>The claims\<close>

lemma accepts_no_files: "accepts no_files name lines \<longleftrightarrow> name \<noteq> []"
  by (simp add: accepts_def no_files_def list_all_iff)






section \<open>create_user_vectors: the loop\<close>

lemma fill_vectors_Cons:
  "fill_vectors np n idx tot ((u, s, c) # rows) uv =
     (case idx s of
        None \<Rightarrow> Inl KeyError
      | Some i \<Rightarrow>
          (case tot u of
             None \<Rightarrow> Inl KeyError
           | Some t \<Rightarrow>
               if i < n then fill_vectors np n idx tot rows (step_vectors n uv u i (true_divide np (real c) (real t)))
               else Inl IndexError))"
  by (auto simp: step_vectors_def Let_def split: option.splits)

lemma map_fst_update:
  "map fst (map (\<lambda>(u, v). if u = user then (u, f v) else (u, v)) xs) = map fst xs"
  by (induction xs) auto

lemma map_of_update:
  "map_of (map (\<lambda>(u, v). if u = user then (u, f v) else (u, v)) xs) u'
     = (if u' = user then map_option f (map_of xs u') else map_of xs u')"
  by (induction xs) auto

lemma step_vectors_keys: "map fst (step_vectors n uv user i x)
    = (if user \<notin> fst ` set uv then map fst uv @ [user] else map fst uv)"
  unfolding step_vectors_def map_fst_update by simp

lemma step_vectors_wf:
  assumes "wf_vectors n uv"
  shows "wf_vectors n (step_vectors n uv user i x)"
proof -
  have d: "distinct (map fst (step_vectors n uv user i x))"
    using assms unfolding step_vectors_keys wf_vectors_def by auto
  have "list_all (\<lambda>(u, v). length v = n) (step_vectors n uv user i x)"
    using assms unfolding step_vectors_def wf_vectors_def
    by (auto simp: list_all_iff split: if_splits)
  with d show ?thesis by (simp add: wf_vectors_def)
qed

lemma map_of_length:
  "wf_vectors n uv \<Longrightarrow> map_of uv u = Some v \<Longrightarrow> length v = n"
  by (auto simp: wf_vectors_def list_all_iff dest: map_of_SomeD)

lemma step_vectors_coord:
  assumes wf: "wf_vectors n uv" and i: "i < n" and k: "k < n"
  shows "coord (step_vectors n uv user i x) u k
     = (if u = user \<and> k = i then x else coord uv u k)"
proof (cases "user \<in> fst ` set uv")
  case True
  then obtain v where v: "map_of uv user = Some v"
    by (metis domD dom_map_of_conv_image_fst)
  have lv: "length v = n" by (rule map_of_length [OF wf v])
  have "step_vectors n uv user i x
      = map (\<lambda>(u, v). if u = user then (u, v[i := x]) else (u, v)) uv"
    using True by (simp add: step_vectors_def)
  then show ?thesis
    using v lv i k by (auto simp: coord_def map_of_update)
next
  case False
  then have none: "map_of uv user = None"
    by (simp add: map_of_eq_None_iff)
  have "step_vectors n uv user i x
      = map (\<lambda>(u, v). if u = user then (u, v[i := x]) else (u, v)) (uv @ [(user, replicate n 0)])"
    using False by (simp add: step_vectors_def)
  then show ?thesis
    using none i k by (auto simp: coord_def map_of_update map_add_def split: option.splits)
qed

lemma fill_vectors_coord:
  assumes "wf_vectors n uv"
    and "\<forall>(u, s, c) \<in> set rows. (\<exists>i < n. idx s = Some i) \<and> (\<exists>t. tot u = Some t)"
    and "distinct (map (\<lambda>(u, s, c). (u, s)) rows)"
    and "\<forall>s s' k. idx s = Some k \<longrightarrow> idx s' = Some k \<longrightarrow> s = s'"
  shows "\<exists>uv'. fill_vectors np n idx tot rows uv = Inr uv' \<and> wf_vectors n uv'
      \<and> set (map fst uv') = set (map fst uv) \<union> fst ` set rows
      \<and> (\<forall>u s c k. (u, s, c) \<in> set rows \<and> idx s = Some k
            \<longrightarrow> coord uv' u k = true_divide np (real c) (real (the (tot u))))
      \<and> (\<forall>u k. k < n \<and> (\<forall>s c. (u, s, c) \<in> set rows \<longrightarrow> idx s \<noteq> Some k)
            \<longrightarrow> coord uv' u k = coord uv u k)"
  using assms
proof (induction rows arbitrary: uv)
  case Nil
  then show ?case by simp
next
  case (Cons r rest)
  obtain u0 s0 c0 where r: "r = (u0, s0, c0)" by (cases r)
  have "(\<exists>i < n. idx s0 = Some i) \<and> (\<exists>t. tot u0 = Some t)"
    using Cons.prems(2) unfolding r by simp
  then obtain i0 t0 where i0: "i0 < n" "idx s0 = Some i0" and t0: "tot u0 = Some t0"
    by blast
  let ?x = "true_divide np (real c0) (real t0)"
  let ?uv2 = "step_vectors n uv u0 i0 ?x"
  have wf2: "wf_vectors n ?uv2" by (rule step_vectors_wf [OF Cons.prems(1)])
  have p2: "\<forall>(u, s, c) \<in> set rest. (\<exists>i < n. idx s = Some i) \<and> (\<exists>t. tot u = Some t)"
    using Cons.prems(2) by simp
  have p3: "distinct (map (\<lambda>(u, s, c). (u, s)) rest)" using Cons.prems(3) by simp
  from Cons.IH [OF wf2 p2 p3 Cons.prems(4)] obtain uv' where
    IH: "fill_vectors np n idx tot rest ?uv2 = Inr uv' \<and> wf_vectors n uv'
      \<and> set (map fst uv') = set (map fst ?uv2) \<union> fst ` set rest
      \<and> (\<forall>u s c k. (u, s, c) \<in> set rest \<and> idx s = Some k
            \<longrightarrow> coord uv' u k = true_divide np (real c) (real (the (tot u))))
      \<and> (\<forall>u k. k < n \<and> (\<forall>s c. (u, s, c) \<in> set rest \<longrightarrow> idx s \<noteq> Some k)
            \<longrightarrow> coord uv' u k = coord ?uv2 u k)" ..
  from IH have f: "fill_vectors np n idx tot rest ?uv2 = Inr uv'" by (rule conjunct1)
  from IH have wf': "wf_vectors n uv'" by (elim conjE)
  from IH have keys: "set (map fst uv') = set (map fst ?uv2) \<union> fst ` set rest" by (elim conjE)
  from IH have A0: "\<forall>u s c k. (u, s, c) \<in> set rest \<and> idx s = Some k
            \<longrightarrow> coord uv' u k = true_divide np (real c) (real (the (tot u)))" by (elim conjE)
  from IH have B0: "\<forall>u k. k < n \<and> (\<forall>s c. (u, s, c) \<in> set rest \<longrightarrow> idx s \<noteq> Some k)
            \<longrightarrow> coord uv' u k = coord ?uv2 u k" by (elim conjE)
  have A: "coord uv' u k = true_divide np (real c) (real (the (tot u)))"
    if "(u, s, c) \<in> set rest" "idx s = Some k" for u s c k
    using A0 that by blast
  have B: "coord uv' u k = coord ?uv2 u k"
    if "k < n" "\<forall>s c. (u, s, c) \<in> set rest \<longrightarrow> idx s \<noteq> Some k" for u k
    using B0 that by blast
  have run: "fill_vectors np n idx tot (r # rest) uv = Inr uv'"
    unfolding r fill_vectors_Cons using i0 t0 f by simp
  have keys': "set (map fst uv') = set (map fst uv) \<union> fst ` set (r # rest)"
    unfolding keys step_vectors_keys r by auto
  have no_dup: "idx s \<noteq> Some i0" if "(u0, s, c) \<in> set rest" for s c
  proof
    assume e: "idx s = Some i0"
    have "s = s0" using Cons.prems(4) e i0(2) by blast
    then have "(u0, s0) \<in> set (map (\<lambda>(u, s, c). (u, s)) rest)"
      using that by force
    then show False using Cons.prems(3) unfolding r by simp
  qed
  have A': "coord uv' u k = true_divide np (real c) (real (the (tot u)))"
    if "(u, s, c) \<in> set (r # rest)" "idx s = Some k" for u s c k
  proof (cases "(u, s, c) \<in> set rest")
    case True
    then show ?thesis using A that(2) by blast
  next
    case False
    then have e: "u = u0" "s = s0" "c = c0" using that(1) unfolding r by auto
    then have k: "k = i0" using that(2) i0(2) by simp
    have "coord uv' u0 i0 = coord ?uv2 u0 i0"
      using B [OF i0(1)] no_dup by blast
    also have "\<dots> = ?x" using step_vectors_coord [OF Cons.prems(1) i0(1) i0(1)] by simp
    finally show ?thesis using e k t0 by simp
  qed
  have B': "coord uv' u k = coord uv u k"
    if "k < n" "\<forall>s c. (u, s, c) \<in> set (r # rest) \<longrightarrow> idx s \<noteq> Some k" for u k
  proof -
    have "\<forall>s c. (u, s, c) \<in> set rest \<longrightarrow> idx s \<noteq> Some k" using that(2) by simp
    then have "coord uv' u k = coord ?uv2 u k" by (rule B [OF that(1)])
    also have "\<dots> = (if u = u0 \<and> k = i0 then ?x else coord uv u k)"
      by (rule step_vectors_coord [OF Cons.prems(1) i0(1) that(1)])
    finally have e: "coord uv' u k = (if u = u0 \<and> k = i0 then ?x else coord uv u k)" .
    have "\<not> (u = u0 \<and> k = i0)" using that(2) i0(2) unfolding r by auto
    with e show ?thesis by simp
  qed
  show ?case
  proof (intro exI [of _ uv'] conjI allI impI)
    show "fill_vectors np n idx tot (r # rest) uv = Inr uv'" by (rule run)
    show "wf_vectors n uv'" by (rule wf')
    show "set (map fst uv') = set (map fst uv) \<union> fst ` set (r # rest)" by (rule keys')
  next
    fix u s c k assume "(u, s, c) \<in> set (r # rest) \<and> idx s = Some k"
    then show "coord uv' u k = true_divide np (real c) (real (the (tot u)))" using A' by blast
  next
    fix u k assume "k < n \<and> (\<forall>s c. (u, s, c) \<in> set (r # rest) \<longrightarrow> idx s \<noteq> Some k)"
    then show "coord uv' u k = coord uv u k" using B' by blast
  qed
qed

section \<open>create_user_vectors: the tables\<close>

lemma index_map_snoc: "index_map (xs @ [x]) = (index_map xs)(x \<mapsto> length xs)"
  by (simp add: index_map_def enumerate_append_eq)

lemma index_map_iff:
  "distinct subs \<Longrightarrow> index_map subs s = Some k \<longleftrightarrow> k < length subs \<and> subs ! k = s"
proof (induction subs rule: rev_induct)
  case Nil
  show ?case by (simp add: index_map_def)
next
  case (snoc x xs)
  then have d: "distinct xs" and nx: "x \<notin> set xs" by simp_all
  note IH = snoc.IH [OF d]
  show ?case
  proof (cases "s = x")
    case True
    have "k < length (xs @ [x]) \<and> (xs @ [x]) ! k = x \<longleftrightarrow> k = length xs"
      using nx by (auto simp: nth_append less_Suc_eq)
    then show ?thesis unfolding index_map_snoc using True by auto
  next
    case False
    have "k < length (xs @ [x]) \<and> (xs @ [x]) ! k = s \<longleftrightarrow> k < length xs \<and> xs ! k = s"
      using False by (auto simp: nth_append less_Suc_eq)
    then show ?thesis unfolding index_map_snoc using False IH by simp
  qed
qed

lemma count_list_filter: "P k \<Longrightarrow> count_list (filter P xs) k = count_list xs k"
  by (induction xs) auto

lemma sum_count_filter:
  assumes "distinct ks" and "set ks = set df"
  shows "sum_list (map (count_list df) (filter P ks)) = length (filter P df)"
proof -
  have "sum_list (map (count_list df) (filter P ks)) = sum (count_list df) (set (filter P ks))"
    using assms(1) by (simp add: sum_list_distinct_conv_sum_set)
  also have "set (filter P ks) = set (filter P df)" using assms(2) by simp
  also have "sum (count_list df) (set (filter P df))
      = sum (count_list (filter P df)) (set (filter P df))"
    by (rule sum.cong) (simp_all add: count_list_filter)
  also have "\<dots> = length (filter P df)" by (rule sum_count_set) simp_all
  finally show ?thesis .
qed

lemma groupby_size_keys: "map (\<lambda>(u, s, c). (u, s)) (groupby_size df) = sort (remdups df)"
  by (simp add: groupby_size_def comp_def case_prod_unfold)

lemma groupby_size_iff:
  "(u, s, c) \<in> set (groupby_size df) \<longleftrightarrow> (u, s) \<in> set df \<and> c = count_list df (u, s)"
  by (auto simp: groupby_size_def)

lemma groupby_size_users: "set (map fst (groupby_size df)) = fst ` set df"
  by (force simp: groupby_size_def)

lemma groupby_size_total:
  "sum_list (map (\<lambda>(u, s, c). c) (filter (\<lambda>(u, s, c). u = a) (groupby_size df)))
     = UserTotal df a"
proof -
  have "filter (\<lambda>(u, s, c). u = a) (groupby_size df)
      = map (\<lambda>(u, s). (u, s, count_list df (u, s))) (filter (\<lambda>p. fst p = a) (sort (remdups df)))"
    by (simp add: groupby_size_def filter_map comp_def case_prod_unfold)
  then have "sum_list (map (\<lambda>(u, s, c). c) (filter (\<lambda>(u, s, c). u = a) (groupby_size df)))
      = sum_list (map (count_list df) (filter (\<lambda>p. fst p = a) (sort (remdups df))))"
    by (simp add: comp_def case_prod_unfold)
  also have "\<dots> = length (filter (\<lambda>p. fst p = a) df)"
    by (rule sum_count_filter) simp_all
  finally show ?thesis by (simp add: UserTotal_def)
qed

lemma groupby_sum_eq:
  "groupby_sum (groupby_size df)
     = map (\<lambda>a. (a, UserTotal df a)) (sort (remdups (map fst (groupby_size df))))"
  by (simp add: groupby_sum_def groupby_size_total)

lemma UserTotal_pos_iff: "0 < UserTotal df u \<longleftrightarrow> u \<in> fst ` set df"
  by (auto simp: UserTotal_def filter_empty_conv image_iff)

lemma user_total_posts_eq:
  "filter (\<lambda>(user, tot). tot \<ge> lurker_threshold) (groupby_sum (groupby_size df))
     = map (\<lambda>a. (a, UserTotal df a))
         (filter (\<lambda>a. UserTotal df a \<ge> lurker_threshold)
            (sort (remdups (map fst (groupby_size df)))))"
  by (simp add: groupby_sum_eq filter_map comp_def)

lemma survivors_set:
  "fst ` set (filter (\<lambda>(user, tot). tot \<ge> lurker_threshold) (groupby_sum (groupby_size df)))
     = {u. UserTotal df u \<ge> lurker_threshold}"
proof -
  have "u \<in> fst ` set df" if "UserTotal df u \<ge> lurker_threshold" for u
    using that UserTotal_pos_iff [of df u] by (simp add: lurker_threshold_def)
  then show ?thesis
    unfolding user_total_posts_eq using groupby_size_users [of df]
    by (auto simp: image_iff)
qed

lemma user_total_posts_lookup:
  "UserTotal df u \<ge> lurker_threshold \<Longrightarrow>
     map_of (filter (\<lambda>(user, tot). tot \<ge> lurker_threshold) (groupby_sum (groupby_size df))) u
       = Some (UserTotal df u)"
proof -
  assume a: "UserTotal df u \<ge> lurker_threshold"
  then have "u \<in> fst ` set df"
    using UserTotal_pos_iff [of df u] by (simp add: lurker_threshold_def)
  then have "u \<in> set (filter (\<lambda>a. UserTotal df a \<ge> lurker_threshold)
            (sort (remdups (map fst (groupby_size df)))))"
    using a groupby_size_users [of df] by simp
  then show ?thesis unfolding user_total_posts_eq
    by (simp add: map_of_map_restrict del: set_filter)
qed

lemma create_user_vectors_unfold:
  "create_user_vectors np df =
     (case fill_vectors np (length (sort (remdups (map snd df))))
             (index_map (sort (remdups (map snd df))))
             (map_of (filter (\<lambda>(user, tot). tot \<ge> lurker_threshold)
                        (groupby_sum (groupby_size df))))
             (filter (\<lambda>(user, subreddit, count).
                        user \<in> fst ` set (filter (\<lambda>(user, tot). tot \<ge> lurker_threshold)
                                             (groupby_sum (groupby_size df))))
                (groupby_size df))
             [] of
        Inl e \<Rightarrow> Inl e
      | Inr user_vectors \<Rightarrow>
          (case user_vectors of
             [] \<Rightarrow> Inl StopIteration
           | _ \<Rightarrow> Inr (user_vectors, sort (remdups (map snd df)))))"
  unfolding create_user_vectors_def Let_def index_map_def ..

lemma surviving_rows_iff:
  "(u, s, c) \<in> set (filter (\<lambda>(user, subreddit, count).
                        user \<in> fst ` set (filter (\<lambda>(user, tot). tot \<ge> lurker_threshold)
                                             (groupby_sum (groupby_size df))))
                (groupby_size df))
     \<longleftrightarrow> (u, s) \<in> set df \<and> c = count_list df (u, s) \<and> UserTotal df u \<ge> lurker_threshold"
  unfolding survivors_set by (auto simp: groupby_size_iff)

lemma create_user_vectors_spec:
  "\<exists>uv. create_user_vectors np df
            = (if uv = [] then Inl StopIteration else Inr (uv, sort (remdups (map snd df))))
      \<and> distinct (map fst uv)
      \<and> set (map fst uv) = {u. UserTotal df u \<ge> lurker_threshold}
      \<and> (\<forall>(u, v) \<in> set uv.
            v = map (\<lambda>s. if count_list df (u, s) = 0 then 0
                         else true_divide np (real (count_list df (u, s))) (real (UserTotal df u)))
                  (sort (remdups (map snd df))))"
proof -
  define subs where "subs = sort (remdups (map snd df))"
  define totals where "totals = filter (\<lambda>(user, tot). tot \<ge> lurker_threshold)
                        (groupby_sum (groupby_size df))"
  define rows where "rows = filter (\<lambda>(user, subreddit, count). user \<in> fst ` set totals)
                        (groupby_size df)"
  let ?n = "length subs"
  have ds: "distinct subs" and ss: "set subs = snd ` set df" by (simp_all add: subs_def)
  have rows_iff: "(u, s, c) \<in> set rows
     \<longleftrightarrow> (u, s) \<in> set df \<and> c = count_list df (u, s) \<and> UserTotal df u \<ge> lurker_threshold"
    for u s c
    unfolding rows_def totals_def by (rule surviving_rows_iff)
  have idx: "index_map subs s = Some k \<longleftrightarrow> k < ?n \<and> subs ! k = s" for s k
    by (rule index_map_iff [OF ds])
  have wf0: "wf_vectors ?n []" by (simp add: wf_vectors_def)
  have look: "\<forall>(u, s, c) \<in> set rows.
      (\<exists>i < ?n. index_map subs s = Some i) \<and> (\<exists>t. map_of totals u = Some t)"
  proof (clarify, intro conjI)
    fix u s c assume r: "(u, s, c) \<in> set rows"
    then have "s \<in> set subs" unfolding ss rows_iff by force
    then obtain i where "i < ?n" "subs ! i = s" by (auto simp: in_set_conv_nth)
    then show "\<exists>i < ?n. index_map subs s = Some i" using idx by blast
    from r have "UserTotal df u \<ge> lurker_threshold" unfolding rows_iff by simp
    then show "\<exists>t. map_of totals u = Some t"
      unfolding totals_def by (auto dest: user_total_posts_lookup)
  qed
  have dist: "distinct (map (\<lambda>(u, s, c). (u, s)) rows)"
    unfolding rows_def
    by (rule distinct_map_filter) (simp add: groupby_size_keys)
  have inj: "\<forall>s s' k. index_map subs s = Some k \<longrightarrow> index_map subs s' = Some k \<longrightarrow> s = s'"
    unfolding idx by auto
  from fill_vectors_coord [OF wf0 look dist inj] obtain uv where
    R: "fill_vectors np ?n (index_map subs) (map_of totals) rows [] = Inr uv \<and> wf_vectors ?n uv
      \<and> set (map fst uv) = set (map fst ([] :: user_vectors)) \<union> fst ` set rows
      \<and> (\<forall>u s c k. (u, s, c) \<in> set rows \<and> index_map subs s = Some k
            \<longrightarrow> coord uv u k = true_divide np (real c) (real (the (map_of totals u))))
      \<and> (\<forall>u k. k < ?n \<and> (\<forall>s c. (u, s, c) \<in> set rows \<longrightarrow> index_map subs s \<noteq> Some k)
            \<longrightarrow> coord uv u k = coord [] u k)" ..
  from R have run: "fill_vectors np ?n (index_map subs) (map_of totals) rows [] = Inr uv"
    by (rule conjunct1)
  from R have wf: "wf_vectors ?n uv" by (elim conjE)
  from R have keys0: "set (map fst uv) = set (map fst ([] :: user_vectors)) \<union> fst ` set rows" by (elim conjE)
  from R have A0: "\<forall>u s c k. (u, s, c) \<in> set rows \<and> index_map subs s = Some k
            \<longrightarrow> coord uv u k = true_divide np (real c) (real (the (map_of totals u)))" by (elim conjE)
  from R have B0: "\<forall>u k. k < ?n \<and> (\<forall>s c. (u, s, c) \<in> set rows \<longrightarrow> index_map subs s \<noteq> Some k)
            \<longrightarrow> coord uv u k = coord [] u k" by (elim conjE)
  have d: "distinct (map fst uv)" using wf by (simp add: wf_vectors_def)
  have keys: "set (map fst uv) = {u. UserTotal df u \<ge> lurker_threshold}"
  proof -
    have "fst ` set rows = {u. UserTotal df u \<ge> lurker_threshold}"
    proof (intro set_eqI iffI)
      fix u assume "u \<in> fst ` set rows"
      then obtain s c where "(u, s, c) \<in> set rows" by force
      then show "u \<in> {u. UserTotal df u \<ge> lurker_threshold}" unfolding rows_iff by simp
    next
      fix u assume "u \<in> {u. UserTotal df u \<ge> lurker_threshold}"
      then have t: "UserTotal df u \<ge> lurker_threshold" by simp
      then have "0 < UserTotal df u" by (simp add: lurker_threshold_def)
      then obtain s where "(u, s) \<in> set df" unfolding UserTotal_pos_iff by force
      with t have "(u, s, count_list df (u, s)) \<in> set rows" unfolding rows_iff by simp
      then show "u \<in> fst ` set rows" by force
    qed
    with keys0 show ?thesis by simp
  qed
  have vec: "v = map (\<lambda>s. if count_list df (u, s) = 0 then 0
                  else true_divide np (real (count_list df (u, s))) (real (UserTotal df u))) subs"
    if uv: "(u, v) \<in> set uv" for u v
  proof (rule nth_equalityI)
    have m: "map_of uv u = Some v" using d uv by simp
    have lv: "length v = ?n" by (rule map_of_length [OF wf m])
    then show "length v = length (map (\<lambda>s. if count_list df (u, s) = 0 then 0
                  else true_divide np (real (count_list df (u, s))) (real (UserTotal df u))) subs)"
      by simp
    have "u \<in> set (map fst uv)" using uv by force
    then have t: "UserTotal df u \<ge> lurker_threshold" unfolding keys by simp
    then have tot: "map_of totals u = Some (UserTotal df u)"
      unfolding totals_def by (rule user_total_posts_lookup)
    fix k assume "k < length v"
    then have k: "k < ?n" using lv by simp
    have c: "coord uv u k = v ! k" using m by (simp add: coord_def)
    have i: "index_map subs (subs ! k) = Some k" using idx k by simp
    have "coord uv u k = (if count_list df (u, subs ! k) = 0 then 0
        else true_divide np (real (count_list df (u, subs ! k))) (real (UserTotal df u)))"
    proof (cases "(u, subs ! k) \<in> set df")
      case True
      then have "(u, subs ! k, count_list df (u, subs ! k)) \<in> set rows"
        unfolding rows_iff using t by simp
      with A0 i tot have "coord uv u k
          = true_divide np (real (count_list df (u, subs ! k))) (real (UserTotal df u))"
        by fastforce
      moreover have "count_list df (u, subs ! k) \<noteq> 0" using True by (simp add: count_list_0_iff)
      ultimately show ?thesis by simp
    next
      case False
      have "\<forall>s c. (u, s, c) \<in> set rows \<longrightarrow> index_map subs s \<noteq> Some k"
      proof (intro allI impI)
        fix s c assume "(u, s, c) \<in> set rows"
        then have "(u, s) \<in> set df" unfolding rows_iff by simp
        with False have "s \<noteq> subs ! k" by auto
        then show "index_map subs s \<noteq> Some k" unfolding idx by simp
      qed
      with B0 k have "coord uv u k = coord [] u k" by blast
      moreover have "count_list df (u, subs ! k) = 0" using False by (simp add: count_list_0_iff)
      ultimately show ?thesis by (simp add: coord_def)
    qed
    with c k show "v ! k = map (\<lambda>s. if count_list df (u, s) = 0 then 0
                  else true_divide np (real (count_list df (u, s))) (real (UserTotal df u))) subs ! k"
      by simp
  qed
  have "create_user_vectors np df = (if uv = [] then Inl StopIteration else Inr (uv, subs))"
    unfolding create_user_vectors_unfold
    using run unfolding subs_def totals_def rows_def
    by (cases uv) simp_all
  with d keys vec show ?thesis unfolding subs_def by blast
qed

section \<open>Norms and the Cauchy-Schwarz inequality\<close>

lemma sum_squares_nonneg: "0 \<le> sum_list (map (\<lambda>a. a * a) (v :: real list))"
  by (induction v) simp_all

lemma l2norm_nonneg: "0 \<le> l2norm v"
  by (simp add: l2norm_def sum_squares_nonneg)

lemma l2norm_Cons: "l2norm (x # xs) = sqrt (x * x + l2norm xs * l2norm xs)"
  by (simp add: l2norm_def sum_squares_nonneg)

lemma cauchy_schwarz_2:
  fixes x y p q :: real
  assumes "0 \<le> p" "0 \<le> q"
  shows "x * y + p * q \<le> sqrt (x * x + p * p) * sqrt (y * y + q * q)"
proof -
  have "(x * y + p * q)\<^sup>2 \<le> (x * x + p * p) * (y * y + q * q)"
  proof -
    have "(x * x + p * p) * (y * y + q * q) - (x * y + p * q)\<^sup>2 = (x * q - y * p)\<^sup>2"
      by (simp add: power2_eq_square algebra_simps)
    moreover have "0 \<le> (x * q - y * p)\<^sup>2" by simp
    ultimately show ?thesis by linarith
  qed
  then have "sqrt ((x * y + p * q)\<^sup>2) \<le> sqrt ((x * x + p * p) * (y * y + q * q))"
    by (rule real_sqrt_le_mono)
  then have "\<bar>x * y + p * q\<bar> \<le> sqrt (x * x + p * p) * sqrt (y * y + q * q)"
    by (simp add: real_sqrt_mult)
  then show ?thesis by linarith
qed

lemma dot_le_norms: "dot a b \<le> l2norm a * l2norm b"
proof (induction a arbitrary: b)
  case Nil
  show ?case by (simp add: dot_def l2norm_def)
next
  case (Cons x xs)
  show ?case
  proof (cases b)
    case Nil
    then show ?thesis
      using l2norm_nonneg [of "x # xs"] by (simp add: dot_def l2norm_def)
  next
    case (Cons y ys)
    have "dot (x # xs) (y # ys) = x * y + dot xs ys" by (simp add: dot_def)
    also have "\<dots> \<le> x * y + l2norm xs * l2norm ys" using Cons.IH [of ys] by simp
    also have "\<dots> \<le> sqrt (x * x + l2norm xs * l2norm xs) * sqrt (y * y + l2norm ys * l2norm ys)"
      by (rule cauchy_schwarz_2) (rule l2norm_nonneg)+
    finally show ?thesis unfolding Cons l2norm_Cons .
  qed
qed

lemma l2norm_divide: "0 < c \<Longrightarrow> l2norm (map (\<lambda>a. a / c) v) = l2norm v / c"
proof -
  assume c: "0 < c"
  have "sum_list (map (\<lambda>a. a * a) (map (\<lambda>a. a / c) v)) = sum_list (map (\<lambda>a. a * a) v) / (c * c)"
    by (induction v) (simp_all add: add_divide_distrib)
  then show ?thesis
    using c by (simp add: l2norm_def real_sqrt_divide del: map_map)
qed

lemma l2norm_unit_le: "l2norm (unit_vector v) \<le> 1"
proof (cases "l2norm v = 0")
  case True
  then show ?thesis by (simp add: unit_vector_def)
next
  case False
  then have p: "0 < l2norm v" using l2norm_nonneg [of v] by simp
  have "unit_vector v = map (\<lambda>a. a / l2norm v) v" using False by (simp add: unit_vector_def)
  then show ?thesis using l2norm_divide [OF p, of v] p by simp
qed

lemma cosine_le_1: "cosine a b \<le> 1"
proof -
  have "cosine a b \<le> l2norm (unit_vector a) * l2norm (unit_vector b)"
    unfolding cosine_def by (rule dot_le_norms)
  also have "\<dots> \<le> 1 * 1"
    by (rule mult_mono) (simp_all add: l2norm_unit_le l2norm_nonneg)
  finally show ?thesis by simp
qed

lemma dot_nonneg:
  "\<forall>x \<in> set a. 0 \<le> x \<Longrightarrow> \<forall>x \<in> set b. 0 \<le> x \<Longrightarrow> 0 \<le> dot a b"
  unfolding dot_def
proof (induction a arbitrary: b)
  case Nil
  show ?case by simp
next
  case (Cons x xs)
  then show ?case by (cases b) simp_all
qed

lemma unit_vector_nonneg: "\<forall>x \<in> set a. 0 \<le> x \<Longrightarrow> \<forall>x \<in> set (unit_vector a). 0 \<le> x"
  using l2norm_nonneg [of a] by (auto simp: unit_vector_def)

lemma cosine_nonneg:
  "\<forall>x \<in> set a. 0 \<le> x \<Longrightarrow> \<forall>x \<in> set b. 0 \<le> x \<Longrightarrow> 0 \<le> cosine a b"
  unfolding cosine_def by (intro dot_nonneg unit_vector_nonneg)

section \<open>The fractions of a user\<close>

lemma sum_counts_user:
  assumes "distinct subs" and "snd ` set df \<subseteq> set subs"
  shows "sum_list (map (\<lambda>s. count_list df (u, s)) subs) = UserTotal df u"
proof -
  let ?P = "\<lambda>p :: post. fst p = u"
  let ?ks = "map (Pair u) subs"
  have dk: "distinct ?ks" using assms(1) by (simp add: distinct_map inj_on_def)
  have sub: "set (filter ?P df) \<subseteq> set ?ks" using assms(2) by force
  have "sum_list (map (\<lambda>s. count_list df (u, s)) subs) = sum_list (map (count_list df) ?ks)"
    by (simp add: comp_def)
  also have "\<dots> = sum (count_list df) (set ?ks)"
    using dk by (rule sum_list_distinct_conv_sum_set)
  also have "\<dots> = sum (count_list (filter ?P df)) (set ?ks)"
    by (rule sum.cong) (auto simp: count_list_filter)
  also have "\<dots> = length (filter ?P df)" using sub by (rule sum_count_set) simp
  finally show ?thesis by (simp add: UserTotal_def)
qed

lemma fractions_sum:
  assumes "distinct subs" and "snd ` set df \<subseteq> set subs" and "0 < UserTotal df u"
  shows "sum_list (map (\<lambda>s. real (count_list df (u, s)) / real (UserTotal df u)) subs) = 1"
proof -
  have "sum_list (map (\<lambda>s. real (count_list df (u, s)) / real (UserTotal df u)) subs)
      = sum_list (map (\<lambda>s. real (count_list df (u, s))) subs) / real (UserTotal df u)"
    by (induction subs) (simp_all add: add_divide_distrib)
  also have "sum_list (map (\<lambda>s. real (count_list df (u, s))) subs)
      = real (sum_list (map (\<lambda>s. count_list df (u, s)) subs))"
    by (induction subs) simp_all
  also have "\<dots> = real (UserTotal df u)" using sum_counts_user [OF assms(1,2)] by simp
  finally show ?thesis using assms(3) by simp
qed

section \<open>create_user_vectors: the claims\<close>

lemma create_user_vectors_example_np:
  "create_user_vectors np example_posts
     = Inr ([(''a'', [true_divide np 3 3, 0, 0]),
             (''b'', [true_divide np 3 7, true_divide np 4 7, 0])], [''x'', ''y'', ''z''])"
  by code_simp simp

lemma create_user_vectors_example:
  "create_user_vectors exact example_posts
     = Inr ([(''a'', [1, 0, 0]), (''b'', [3 / 7, 4 / 7, 0])], [''x'', ''y'', ''z''])"
  by (simp add: create_user_vectors_example_np)

lemma create_user_vectors_twin:
  "create_user_vectors np twin_posts
     = Inr ([(''a'', [true_divide np 4 7, true_divide np 3 7]),
             (''b'', [true_divide np 4 7, true_divide np 3 7])], [''x'', ''y''])"
  by code_simp simp

lemma UserTotal_example: "lurker_threshold \<le> UserTotal example_posts ''b''"
  by code_simp

lemma l2norm_example: "l2norm [1, 0, 0] = 1" "l2norm [3 / 7, 4 / 7, 0] = 5 / 7"
proof -
  show "l2norm [1, 0, 0] = 1" by (simp add: l2norm_def)
  show "l2norm [3 / 7, 4 / 7, 0] = 5 / 7"
    unfolding l2norm_def by (rule real_sqrt_unique) (simp_all add: power2_eq_square)
qed

lemma create_user_vectors_InrD:
  assumes "create_user_vectors np df = Inr (user_vectors, all_subreddits)"
  shows "all_subreddits = sort (remdups (map snd df))"
    "distinct (map fst user_vectors)"
    "set (map fst user_vectors) = {u. UserTotal df u \<ge> lurker_threshold}"
    "\<And>u v. (u, v) \<in> set user_vectors \<Longrightarrow>
       v = map (\<lambda>s. if count_list df (u, s) = 0 then 0
                  else true_divide np (real (count_list df (u, s))) (real (UserTotal df u)))
             all_subreddits"
proof -
  from create_user_vectors_spec [of np df] obtain uv where
    S: "create_user_vectors np df
            = (if uv = [] then Inl StopIteration else Inr (uv, sort (remdups (map snd df))))
      \<and> distinct (map fst uv)
      \<and> set (map fst uv) = {u. UserTotal df u \<ge> lurker_threshold}
      \<and> (\<forall>(u, v) \<in> set uv.
            v = map (\<lambda>s. if count_list df (u, s) = 0 then 0
                  else true_divide np (real (count_list df (u, s))) (real (UserTotal df u)))
                  (sort (remdups (map snd df))))" ..
  from S assms have e: "uv = user_vectors" "all_subreddits = sort (remdups (map snd df))"
    by (auto split: if_splits)
  show "all_subreddits = sort (remdups (map snd df))" by (rule e(2))
  show "distinct (map fst user_vectors)" using S e by blast
  show "set (map fst user_vectors) = {u. UserTotal df u \<ge> lurker_threshold}" using S e by blast
  show "\<And>u v. (u, v) \<in> set user_vectors \<Longrightarrow>
       v = map (\<lambda>s. if count_list df (u, s) = 0 then 0
                  else true_divide np (real (count_list df (u, s))) (real (UserTotal df u)))
             all_subreddits"
    using S e by blast
qed

lemma create_user_vectors_exact_InrD:
  assumes "create_user_vectors exact df = Inr (user_vectors, all_subreddits)"
    and "(u, v) \<in> set user_vectors"
  shows "v = map (\<lambda>s. real (count_list df (u, s)) / real (UserTotal df u)) all_subreddits"
  using create_user_vectors_InrD(4) [OF assms] by simp

lemma create_user_vectors_total:
  assumes "lurker_threshold \<le> UserTotal df u"
  shows "\<exists>user_vectors v.
           create_user_vectors np df = Inr (user_vectors, sort (remdups (map snd df)))
           \<and> (u, v) \<in> set user_vectors"
proof -
  from create_user_vectors_spec [of np df] obtain uv where
    S: "create_user_vectors np df
            = (if uv = [] then Inl StopIteration else Inr (uv, sort (remdups (map snd df))))
      \<and> distinct (map fst uv)
      \<and> set (map fst uv) = {u. UserTotal df u \<ge> lurker_threshold}
      \<and> (\<forall>(u, v) \<in> set uv.
            v = map (\<lambda>s. if count_list df (u, s) = 0 then 0
                  else true_divide np (real (count_list df (u, s))) (real (UserTotal df u)))
                  (sort (remdups (map snd df))))" ..
  from S assms have "u \<in> set (map fst uv)" by simp
  then obtain v where v: "(u, v) \<in> set uv" by auto
  then have "uv \<noteq> []" by auto
  with S v show ?thesis by auto
qed

text \<open>
  C5. A user with at least \<open>lurker_threshold\<close> posts gets a vector: it has one coordinate
  for each subreddit of the table, the coordinate of a subreddit is the number of the
  user's posts there divided by the number of the user's posts (0 where the user has
  none), and the coordinates sum to 1. This is in exact arithmetic; in any arithmetic the
  coordinate is the quotient that the division of the two numbers returns.
\<close>

theorem vector_of_fractions:
  assumes "lurker_threshold \<le> UserTotal df u"
  shows "(\<exists>user_vectors all_subreddits v.
           create_user_vectors exact df = Inr (user_vectors, all_subreddits)
         \<and> distinct (map fst user_vectors) \<and> (u, v) \<in> set user_vectors
         \<and> distinct all_subreddits \<and> set all_subreddits = snd ` set df
         \<and> length v = length all_subreddits \<and> length v = card (snd ` set df)
         \<and> (\<forall>k < length all_subreddits.
               v ! k = real (ActivityCount df u (all_subreddits ! k)) / real (UserTotal df u))
         \<and> sum_list v = 1)
       \<and> (\<exists>user_vectors all_subreddits v.
           create_user_vectors np df = Inr (user_vectors, all_subreddits)
         \<and> distinct (map fst user_vectors) \<and> (u, v) \<in> set user_vectors
         \<and> distinct all_subreddits \<and> set all_subreddits = snd ` set df
         \<and> length v = length all_subreddits
         \<and> (\<forall>k < length all_subreddits.
               v ! k = (if ActivityCount df u (all_subreddits ! k) = 0 then 0
                        else true_divide np (real (ActivityCount df u (all_subreddits ! k)))
                               (real (UserTotal df u)))))"
proof
  let ?subs = "sort (remdups (map snd df))"
  from create_user_vectors_total [OF assms] obtain uv v where
    c: "create_user_vectors exact df = Inr (uv, ?subs)" and uv: "(u, v) \<in> set uv"
    by blast
  note D = create_user_vectors_InrD [OF c]
  have v: "v = map (\<lambda>s. real (count_list df (u, s)) / real (UserTotal df u)) ?subs"
    by (rule create_user_vectors_exact_InrD [OF c uv])
  have ds: "distinct ?subs" and ss: "set ?subs = snd ` set df" by simp_all
  have len: "length v = length ?subs" unfolding v by simp
  have "card (set ?subs) = length ?subs" using ds by (rule distinct_card)
  then have card: "length v = card (snd ` set df)" using len ss by simp
  have nth: "\<forall>k < length ?subs.
      v ! k = real (ActivityCount df u (?subs ! k)) / real (UserTotal df u)"
    unfolding v by (simp add: ActivityCount_def)
  have pos: "0 < UserTotal df u" using assms by (simp add: lurker_threshold_def)
  have sum: "sum_list v = 1"
    unfolding v by (rule fractions_sum [OF ds _ pos]) (simp add: ss)
  from c D(2) uv ds ss len card nth sum
  show "\<exists>user_vectors all_subreddits v.
           create_user_vectors exact df = Inr (user_vectors, all_subreddits)
         \<and> distinct (map fst user_vectors) \<and> (u, v) \<in> set user_vectors
         \<and> distinct all_subreddits \<and> set all_subreddits = snd ` set df
         \<and> length v = length all_subreddits \<and> length v = card (snd ` set df)
         \<and> (\<forall>k < length all_subreddits.
               v ! k = real (ActivityCount df u (all_subreddits ! k)) / real (UserTotal df u))
         \<and> sum_list v = 1"
    by blast
next
  let ?subs = "sort (remdups (map snd df))"
  from create_user_vectors_total [OF assms] obtain uv v where
    c: "create_user_vectors np df = Inr (uv, ?subs)" and uv: "(u, v) \<in> set uv"
    by blast
  note D = create_user_vectors_InrD [OF c]
  have v: "v = map (\<lambda>s. if count_list df (u, s) = 0 then 0
                  else true_divide np (real (count_list df (u, s))) (real (UserTotal df u)))
             ?subs"
    by (rule D(4) [OF uv])
  have ds: "distinct ?subs" and ss: "set ?subs = snd ` set df" by simp_all
  have len: "length v = length ?subs" unfolding v by simp
  have nth: "\<forall>k < length ?subs.
      v ! k = (if ActivityCount df u (?subs ! k) = 0 then 0
               else true_divide np (real (ActivityCount df u (?subs ! k))) (real (UserTotal df u)))"
    unfolding v by (simp add: ActivityCount_def)
  from c D(2) uv ds ss len nth
  show "\<exists>user_vectors all_subreddits v.
           create_user_vectors np df = Inr (user_vectors, all_subreddits)
         \<and> distinct (map fst user_vectors) \<and> (u, v) \<in> set user_vectors
         \<and> distinct all_subreddits \<and> set all_subreddits = snd ` set df
         \<and> length v = length all_subreddits
         \<and> (\<forall>k < length all_subreddits.
               v ! k = (if ActivityCount df u (all_subreddits ! k) = 0 then 0
                        else true_divide np (real (ActivityCount df u (all_subreddits ! k)))
                               (real (UserTotal df u))))"
    by blast
qed

theorem vector_of_fractions_witness:
  "lurker_threshold \<le> UserTotal example_posts ''b''
   \<and> create_user_vectors exact example_posts
       = Inr ([(''a'', [1, 0, 0]), (''b'', [3 / 7, 4 / 7, 0])], [''x'', ''y'', ''z''])
   \<and> sum_list [3 / 7, 4 / 7, 0 :: real] = 1"
proof -
  from vector_of_fractions [OF UserTotal_example, THEN conjunct1] obtain uv subs v where
    c: "create_user_vectors exact example_posts = Inr (uv, subs)" and v: "(''b'', v) \<in> set uv"
    and s: "sum_list v = 1"
    by blast
  from c have "uv = [(''a'', [1, 0, 0]), (''b'', [3 / 7, 4 / 7, 0])]"
    unfolding create_user_vectors_example by simp
  with v have "v = [3 / 7, 4 / 7, 0]" by simp
  with s show ?thesis using UserTotal_example create_user_vectors_example by simp
qed

lemma pipeline_vector_props:
  assumes c: "create_user_vectors exact df = Inr (user_vectors, all_subreddits)"
    and uv: "(u, v) \<in> set user_vectors"
  shows "lurker_threshold \<le> UserTotal df u" "\<forall>x \<in> set v. 0 \<le> x" "\<exists>x \<in> set v. 0 < x"
    "0 < l2norm v"
proof -
  note D = create_user_vectors_InrD [OF c]
  have "u \<in> set (map fst user_vectors)" using uv by force
  then show t: "lurker_threshold \<le> UserTotal df u" unfolding D(3) by simp
  then have pos: "0 < UserTotal df u" by (simp add: lurker_threshold_def)
  have v: "v = map (\<lambda>s. real (count_list df (u, s)) / real (UserTotal df u)) all_subreddits"
    by (rule create_user_vectors_exact_InrD [OF c uv])
  show nn: "\<forall>x \<in> set v. 0 \<le> x" unfolding v by auto
  from pos obtain s where s: "(u, s) \<in> set df" unfolding UserTotal_pos_iff by force
  then have "s \<in> set all_subreddits" unfolding D(1) by force
  moreover have "count_list df (u, s) \<noteq> 0" using s by (simp add: count_list_0_iff)
  then have "0 < count_list df (u, s)" by simp
  ultimately have "real (count_list df (u, s)) / real (UserTotal df u) \<in> set v"
    and "0 < real (count_list df (u, s)) / real (UserTotal df u)"
    unfolding v using pos by simp_all
  then show ex: "\<exists>x \<in> set v. 0 < x" by blast
  then have "l2norm v \<noteq> 0" unfolding l2norm_zero_iff by force
  then show "0 < l2norm v" using l2norm_nonneg [of v] by simp
qed

subsection \<open>Two users with four posts in one subreddit and three in another\<close>

lemma similarities_float64_twin:
  "similarities float64_numpy
     [[5146971002709138 / 2 ^ 53, 7720456504063707 / 2 ^ 54],
      [5146971002709138 / 2 ^ 53, 7720456504063707 / 2 ^ 54]]
   = [[4503599627370497 / 2 ^ 52, 4503599627370497 / 2 ^ 52],
      [4503599627370497 / 2 ^ 52, 4503599627370497 / 2 ^ 52]]"
proof -
  have n0: "(6433713753386422 / 2 ^ 53 :: real) = 0 \<longleftrightarrow> False" by simp
  show ?thesis
    by (simp only: similarities_def normalize_rows_2 float64_numpy_simps
        float64_example_4_7 n0 if_False list.map)
qed

lemma similarities_simd_twin:
  "similarities float64_numpy_simd
     [[5146971002709138 / 2 ^ 53, 7720456504063707 / 2 ^ 54],
      [5146971002709138 / 2 ^ 53, 7720456504063707 / 2 ^ 54]]
   = [[4503599627370497 / 2 ^ 52, 4503599627370497 / 2 ^ 52],
      [4503599627370497 / 2 ^ 52, 4503599627370497 / 2 ^ 52]]"
proof -
  have n0: "(6433713753386422 / 2 ^ 53 :: real) = 0 \<longleftrightarrow> False" by simp
  show ?thesis
    by (simp only: similarities_def normalize_rows_2 float64_numpy_simd_simps
        float64_example_4_7 n0 if_False list.map)
qed

lemma dedup_round_float64_twin:
  "dedup_round float64_numpy
     [(''a'', [5146971002709138 / 2 ^ 53, 7720456504063707 / 2 ^ 54]),
      (''b'', [5146971002709138 / 2 ^ 53, 7720456504063707 / 2 ^ 54])] 1
   = Inr [(''a'', [5146971002709138 / 2 ^ 53, 7720456504063707 / 2 ^ 54])]"
proof -
  have "scan_pairs [''a'', ''b'']
          [[4503599627370497 / 2 ^ 52, 4503599627370497 / 2 ^ 52],
           [4503599627370497 / 2 ^ 52, 4503599627370497 / 2 ^ 52]] 1 = {''b''}"
    by (simp add: scan_pairs_def scan_row_def upt_rec [of 0] upt_rec [of 1] upt_rec [of 2])
  then have "scan_pairs [''a'', ''b'']
          (similarities float64_numpy
            [[5146971002709138 / 2 ^ 53, 7720456504063707 / 2 ^ 54],
             [5146971002709138 / 2 ^ 53, 7720456504063707 / 2 ^ 54]]) 1 = {''b''}"
    by (simp only: similarities_float64_twin)
  then show ?thesis
    unfolding dedup_round_eq by (simp add: uniform_def)
qed




section \<open>Empty input\<close>

text \<open>
  C1. The code raises on an empty table, and on a table all of whose users are below the
  cutoff: \<open>create_user_vectors\<close> raises \<^verbatim>\<open>StopIteration\<close> in its last \<^verbatim>\<open>print\<close>, and on an
  empty dict of vectors \<open>deduplicate\<close>, and so the function that writes the edge list,
  raises the error of \<^verbatim>\<open>np.linalg.norm\<close> on the axis; no file is written.
\<close>

theorem empty_input_raises:
  "create_user_vectors np [] = Inl StopIteration
   \<and> create_user_vectors np [(''a'', ''x''), (''a'', ''y'')] = Inl StopIteration
   \<and> dedup_round np [] threshold = Inl AxisError
   \<and> deduplicate np [] threshold deduplicate_default_runs = Inl AxisError
   \<and> generate_similarity_network_vectorized np fs [] threshold output_file
       = (fs, Inl AxisError)"
proof -
  have a: "create_user_vectors np [] = Inl StopIteration" by code_simp
  have b: "create_user_vectors np [(''a'', ''x''), (''a'', ''y'')] = Inl StopIteration"
    by code_simp
  have c: "dedup_round np [] t = Inl AxisError" for t
    by (simp add: dedup_round_eq uniform_def)
  have d: "deduplicate np [] t deduplicate_default_runs = Inl AxisError" for t
    by (simp add: deduplicate_def deduplicate_default_runs_def dedup_loop_step c)
  have e: "generate_similarity_network_vectorized np fs [] threshold output_file
       = (fs, Inl AxisError)"
    by (simp add: generate_similarity_network_vectorized_def d)
  from a b c d e show ?thesis by blast
qed

end
